theory Spec2Isabelle
  imports Complex_Main "HOL-Library.List_Lexorder" "HOL-Library.Char_ord" "HOL-Library.Multiset"
begin

section \<open>Platform values: numbers and strings\<close>

text \<open>
  The engine is TypeScript; its \<^verbatim>\<open>number\<close> is an IEEE-754 double. A number is modelled
  as not-a-number, one of the two infinities, or a finite value given by the real it
  denotes. Comparisons, negation, \<^verbatim>\<open>Math.min\<close>, \<^verbatim>\<open>Math.max\<close>, \<^verbatim>\<open>Math.floor\<close>,
  \<^verbatim>\<open>Math.round\<close> and \<^verbatim>\<open>Number.isFinite\<close> are exact on doubles. A sum, a product or a
  quotient of two finite numbers is the exact real result rounded to the nearest double
  (\<open>fl\<close>): to 53 significant bits, a tie going to the even significand, with gradual
  underflow below 2 to the power -1022 and overflow to an infinity from 2 to the power
  1024. The sign of zero is not modelled: no function below inspects it, and the only
  divisors are non-zero constants.

  A string is a \<^typ>\<open>string\<close>; its characters stand for the code units of the source
  string. The relational operators of the source on strings (\<^verbatim>\<open><\<close>, \<^verbatim>\<open><=\<close>,
  \<^verbatim>\<open>>\<close>) compare code units lexicographically, which is the order of
  \<^typ>\<open>string\<close> used here. \<^verbatim>\<open>String.prototype.localeCompare\<close> is a different,
  host-dependent collation and is a parameter of the model (see \<open>platform\<close> below).
\<close>

datatype number = NaN | NegInf | Fin real | PosInf

fun isFinite :: "number \<Rightarrow> bool" where
  "isFinite (Fin _) = True"
| "isFinite _ = False"

text \<open>
  Rounding to the nearest double. \<open>pow2 e\<close> is 2 to the power \<open>e\<close>; \<open>binade n x\<close> is the
  exponent of the power of two at or just below a positive \<open>x\<close>, found by halving or
  doubling \<open>x\<close> at most \<open>n\<close> times (1100 steps reach every exponent of a double);
  \<open>roundHalfEven\<close> is the nearest integer, a tie going to the even one. In \<open>fl\<close>, \<open>q\<close> is
  the spacing of the doubles around \<open>x\<close>.
\<close>

definition pow2 :: "int \<Rightarrow> real" where
  "pow2 e = (if 0 \<le> e then 2 ^ nat e else 1 / 2 ^ nat (- e))"

fun binade :: "nat \<Rightarrow> real \<Rightarrow> int" where
  "binade 0 x = 0"
| "binade (Suc n) x =
     (if 2 \<le> x then binade n (x / 2) + 1 else if x < 1 then binade n (2 * x) - 1 else 0)"

definition roundHalfEven :: "real \<Rightarrow> int" where
  "roundHalfEven x =
     (let n = \<lfloor>x\<rfloor>; f = x - of_int n
      in if f < 1 / 2 then n else if 1 / 2 < f then n + 1 else if even n then n else n + 1)"

definition fl :: "real \<Rightarrow> number" where
  "fl x =
     (let a = \<bar>x\<bar>
      in if a = 0 then Fin 0
         else if pow2 1024 \<le> a then (if 0 < x then PosInf else NegInf)
         else
           (let e = (if a < pow2 (- 1022) then - 1022 else binade 1100 a);
                q = pow2 (e - 52);
                r = of_int (roundHalfEven (a / q)) * q
            in if pow2 1024 \<le> r then (if 0 < x then PosInf else NegInf)
               else Fin (if 0 < x then r else - r)))"

text \<open>The relational operators on numbers: every comparison with NaN is false.\<close>

fun n_lt :: "number \<Rightarrow> number \<Rightarrow> bool" where
  "n_lt NaN _ = False"
| "n_lt _ NaN = False"
| "n_lt _ NegInf = False"
| "n_lt NegInf _ = True"
| "n_lt PosInf _ = False"
| "n_lt (Fin _) PosInf = True"
| "n_lt (Fin a) (Fin b) = (a < b)"

fun n_le :: "number \<Rightarrow> number \<Rightarrow> bool" where
  "n_le NaN _ = False"
| "n_le _ NaN = False"
| "n_le NegInf _ = True"
| "n_le _ PosInf = True"
| "n_le _ NegInf = False"
| "n_le PosInf _ = False"
| "n_le (Fin a) (Fin b) = (a \<le> b)"

definition n_gt :: "number \<Rightarrow> number \<Rightarrow> bool" where
  "n_gt a b = n_lt b a"

fun n_neg :: "number \<Rightarrow> number" where
  "n_neg NaN = NaN"
| "n_neg NegInf = PosInf"
| "n_neg PosInf = NegInf"
| "n_neg (Fin a) = Fin (- a)"

fun n_add :: "number \<Rightarrow> number \<Rightarrow> number" where
  "n_add NaN _ = NaN"
| "n_add _ NaN = NaN"
| "n_add PosInf NegInf = NaN"
| "n_add NegInf PosInf = NaN"
| "n_add PosInf _ = PosInf"
| "n_add _ PosInf = PosInf"
| "n_add NegInf _ = NegInf"
| "n_add _ NegInf = NegInf"
| "n_add (Fin a) (Fin b) = fl (a + b)"

definition n_sub :: "number \<Rightarrow> number \<Rightarrow> number" where
  "n_sub a b = n_add a (n_neg b)"

text \<open>\<^verbatim>\<open>Math.min(a, b)\<close> and \<^verbatim>\<open>Math.max(a, b)\<close>: NaN if either argument is NaN.\<close>

definition math_min :: "number \<Rightarrow> number \<Rightarrow> number" where
  "math_min a b = (if a = NaN \<or> b = NaN then NaN else if n_le a b then a else b)"

definition math_max :: "number \<Rightarrow> number \<Rightarrow> number" where
  "math_max a b = (if a = NaN \<or> b = NaN then NaN else if n_le a b then b else a)"

fun n_mul :: "number \<Rightarrow> number \<Rightarrow> number" where
  "n_mul NaN _ = NaN"
| "n_mul _ NaN = NaN"
| "n_mul (Fin a) (Fin b) = fl (a * b)"
| "n_mul (Fin a) PosInf = (if a = 0 then NaN else if 0 < a then PosInf else NegInf)"
| "n_mul (Fin a) NegInf = (if a = 0 then NaN else if 0 < a then NegInf else PosInf)"
| "n_mul PosInf (Fin b) = (if b = 0 then NaN else if 0 < b then PosInf else NegInf)"
| "n_mul NegInf (Fin b) = (if b = 0 then NaN else if 0 < b then NegInf else PosInf)"
| "n_mul PosInf PosInf = PosInf"
| "n_mul PosInf NegInf = NegInf"
| "n_mul NegInf PosInf = NegInf"
| "n_mul NegInf NegInf = PosInf"

fun n_div :: "number \<Rightarrow> number \<Rightarrow> number" where
  "n_div NaN _ = NaN"
| "n_div _ NaN = NaN"
| "n_div (Fin a) (Fin b) =
     (if b = 0 then (if a = 0 then NaN else if 0 < a then PosInf else NegInf) else fl (a / b))"
| "n_div (Fin a) _ = Fin 0"
| "n_div PosInf (Fin b) = (if 0 \<le> b then PosInf else NegInf)"
| "n_div NegInf (Fin b) = (if 0 \<le> b then NegInf else PosInf)"
| "n_div _ _ = NaN"

text \<open>
  \<^verbatim>\<open>Math.round\<close> rounds to the nearest integer, a tie going up, and \<^verbatim>\<open>Math.floor\<close> rounds
  down; both are exact, the result of either on a double being a double.
  \<^verbatim>\<open>Number.EPSILON\<close> is 2 to the power -52. Division by zero follows the positive zero.
\<close>

fun math_round :: "number \<Rightarrow> number" where
  "math_round (Fin a) = Fin (of_int \<lfloor>a + 1 / 2\<rfloor>)"
| "math_round x = x"

fun math_floor :: "number \<Rightarrow> number" where
  "math_floor (Fin a) = Fin (of_int \<lfloor>a\<rfloor>)"
| "math_floor x = x"

definition EPSILON :: number where
  "EPSILON = Fin (1 / 2 ^ 52)"

text \<open>
  The integer a \<^verbatim>\<open>Date\<close> constructor reads from a numeric argument (truncation towards
  zero; no integer for NaN and the infinities), \<^verbatim>\<open>v ?? d\<close>, and \<^verbatim>\<open>Number.isFinite\<close> on a
  value that may be \<^verbatim>\<open>null\<close> or absent.
\<close>

fun toInteger :: "number \<Rightarrow> int option" where
  "toInteger (Fin a) = Some (if 0 \<le> a then \<lfloor>a\<rfloor> else \<lceil>a\<rceil>)"
| "toInteger _ = None"

definition nullish :: "'a option \<Rightarrow> 'a \<Rightarrow> 'a" where
  "nullish v d = (case v of None \<Rightarrow> d | Some x \<Rightarrow> x)"

definition isFiniteOpt :: "number option \<Rightarrow> bool" where
  "isFiniteOpt v = (case v of None \<Rightarrow> False | Some x \<Rightarrow> isFinite x)"

text \<open>
  \<^verbatim>\<open>s.split('-')\<close>, the decimal rendering of a natural number in a template literal, and
  \<^verbatim>\<open>padStart(w, '0')\<close>.
\<close>

fun splitDash :: "string \<Rightarrow> string list" where
  "splitDash [] = [[]]"
| "splitDash (c # cs) =
     (if c = CHR ''-'' then [] # splitDash cs
      else (case splitDash cs of [] \<Rightarrow> [[c]] | p # ps \<Rightarrow> (c # p) # ps))"

fun decimal :: "nat \<Rightarrow> string" where
  "decimal n = (if n < 10 then [''0123456789'' ! n] else decimal (n div 10) @ [''0123456789'' ! (n mod 10)])"

declare decimal.simps [simp del]

definition padStart :: "nat \<Rightarrow> string \<Rightarrow> string" where
  "padStart w s = replicate (w - length s) CHR ''0'' @ s"

section \<open>Platform functions\<close>

text \<open>
  Two functions of the host are parameters of the model, collected in \<open>platform\<close>:
  \<^item> \<open>localeCompare P a b\<close> is \<^verbatim>\<open>a.localeCompare(b)\<close>: negative, zero or positive. Its
    collation depends on the host's locale data. Where a theorem needs it to be the
    comparison of a total order on strings, it says so with \<open>collation\<close>.
  \<^item> \<open>toNumber P s\<close> is \<^verbatim>\<open>Number(s)\<close>, the host's conversion of a string to a number.
\<close>

record platform =
  localeCompare :: "string \<Rightarrow> string \<Rightarrow> int"
  toNumber :: "string \<Rightarrow> number"

definition collation :: "(string \<Rightarrow> string \<Rightarrow> int) \<Rightarrow> bool" where
  "collation lc \<longleftrightarrow>
     (\<forall>a b. (lc a b = 0) = (a = b)) \<and>
     (\<forall>a b. (lc a b < 0) = (0 < lc b a)) \<and>
     (\<forall>a b c. lc a b < 0 \<and> lc b c < 0 \<longrightarrow> lc a c < 0)"

text \<open>
  \<^verbatim>\<open>Array.prototype.sort(cmp)\<close> is stable, and for a comparator that is consistent (a total
  preorder) it returns the sorted permutation of its input. That list is unique; it is
  computed here by insertion from the right, an element going before the first element it
  does not exceed.
\<close>

fun sort_insert :: "('a \<Rightarrow> 'a \<Rightarrow> int) \<Rightarrow> 'a \<Rightarrow> 'a list \<Rightarrow> 'a list" where
  "sort_insert cmp x [] = [x]"
| "sort_insert cmp x (y # ys) = (if cmp x y \<le> 0 then x # y # ys else y # sort_insert cmp x ys)"

fun array_sort :: "('a \<Rightarrow> 'a \<Rightarrow> int) \<Rightarrow> 'a list \<Rightarrow> 'a list" where
  "array_sort cmp [] = []"
| "array_sort cmp (x # xs) = sort_insert cmp x (array_sort cmp xs)"

text \<open>
  A \<^verbatim>\<open>Map\<close> keeps its keys in insertion order; it is an association list with distinct
  keys. \<open>map_set\<close> replaces the value of a key in place and appends a new key.
\<close>

fun map_set :: "('k \<times> 'v) list \<Rightarrow> 'k \<Rightarrow> 'v \<Rightarrow> ('k \<times> 'v) list" where
  "map_set [] k v = [(k, v)]"
| "map_set ((k', v') # m) k v = (if k' = k then (k, v) # m else (k', v') # map_set m k v)"

definition map_get :: "('k \<times> 'v) list \<Rightarrow> 'k \<Rightarrow> 'v option" where
  "map_get m k = map_of m k"

section \<open>Data model (types/index.ts)\<close>

text \<open>
  \<^verbatim>\<open>ForecastEvent\<close> and \<^verbatim>\<open>ForecastRow\<close>. The fields \<^verbatim>\<open>id\<close> and \<^verbatim>\<open>type\<close> of the source
  are \<open>event_id\<close> and \<open>event_type\<close> here; the optional \<^verbatim>\<open>sourceId\<close> is an option.
\<close>

datatype event_type = Income | Expense

record forecast_event =
  event_id :: string
  date :: string
  event_type :: event_type
  item :: string
  category :: string
  amount :: number
  sourceId :: "string option"

record forecast_row = forecast_event +
  runningBalance :: number

text \<open>
  \<^verbatim>\<open>DeductionLine\<close> and \<^verbatim>\<open>TaxWithheldLine\<close> have the same fields and are one record here.
  A field that may be \<^verbatim>\<open>null\<close> or absent is an option. The field
  \<^verbatim>\<open>loanRepaymentAmount\<close> of the configuration is \<open>configLoanRepaymentAmount\<close>; the field
  of the same name of the breakdown keeps its name.
\<close>

datatype pay_frequency = PayWeekly | PayBiweekly | PaySemimonthly | PayMonthly

datatype expense_repeat = RepeatNone | RepeatWeekly | RepeatBiweekly | RepeatMonthly | RepeatYearly

datatype paycheck_input_mode = NetMode | CalculateMode

datatype deduction_type = Fixed | PercentOfGross

datatype gross_input_mode = Direct | Hourly

record deduction_line =
  line_id :: string
  line_name :: string
  line_type :: deduction_type
  line_value :: number

record paycheck_config =
  paycheckInputMode :: paycheck_input_mode
  grossInputMode :: gross_input_mode
  netPayAmount :: "number option"
  grossPayAmount :: "number option"
  hourlyRate :: "number option"
  hoursPerWeek :: "number option"
  pretaxDeductions :: "deduction_line list"
  taxesWithheld :: "deduction_line list"
  posttaxDeductions :: "deduction_line list"
  configLoanRepaymentAmount :: number
  payFrequency :: pay_frequency
  nextPayDate :: string
  monthlyBonusAmount :: "number option"

text \<open>
  \<^verbatim>\<open>Expense\<close>. Its fields \<^verbatim>\<open>id\<close>, \<^verbatim>\<open>amount\<close> and \<^verbatim>\<open>category\<close> are \<open>expense_id\<close>,
  \<open>expense_amount\<close> and \<open>expense_category\<close> here.
\<close>

record expense =
  expense_id :: string
  name :: string
  expense_amount :: number
  firstDueDate :: string
  variableDatesEnabled :: "bool option"
  variableDueDates :: "string list option"
  repeatCount :: "number option"
  highlightLastEvent :: "bool option"
  repeat :: expense_repeat
  expense_category :: string
  expense_notes :: "string option"

record net_pay_breakdown =
  grossPay :: number
  pretaxTotal :: number
  taxesTotal :: number
  posttaxTotal :: number
  loanRepaymentAmount :: number
  totalWithheldDeducted :: number
  netPay :: number

record payday_metrics =
  nextPaydayDate :: string
  balanceOnNextPayday :: number
  lowestBalanceBeforeNextPayday :: number
  safeToSpendUntilNextPayday :: number

section \<open>Dates (the host's Date and lib/date.ts)\<close>

text \<open>
  Every \<^verbatim>\<open>Date\<close> of the engine is built by \<^verbatim>\<open>new Date(year, month, day)\<close> or moved by
  \<^verbatim>\<open>setDate\<close>: a local midnight, or the invalid date (time value NaN). A valid date is
  the civil date \<open>Civil y m d\<close> it shows through \<^verbatim>\<open>getFullYear\<close>, \<^verbatim>\<open>getMonth\<close> (0 to 11)
  and \<^verbatim>\<open>getDate\<close>. The host is taken to run at UTC, so local and UTC fields agree.

  \<open>timeValue\<close> is the time value of the language standard, counted in days since
  1970-01-01 (the standard's \<^verbatim>\<open>Day(t)\<close>): \<^verbatim>\<open>DayFromYear\<close> plus the days before the month
  plus the day of the month. Relational operators on dates compare time values, and are
  false when one is NaN.

  \<open>makeDate\<close> is the standard's \<^verbatim>\<open>MakeDay\<close> followed by \<^verbatim>\<open>TimeClip\<close>: months beyond 0..11
  carry into the year, days beyond the month carry into the neighbouring months
  (\<open>normalizeDay\<close>), and a date more than 100,000,000 days from the epoch is invalid.
  The constructor reads a year from 0 to 99 as 1900 to 1999; \<^verbatim>\<open>setDate\<close> does not.
\<close>

datatype jsdate = InvalidDate | Civil int int int

definition isLeapYear :: "int \<Rightarrow> bool" where
  "isLeapYear y \<longleftrightarrow> y mod 4 = 0 \<and> (y mod 100 \<noteq> 0 \<or> y mod 400 = 0)"

definition daysInMonth :: "int \<Rightarrow> int \<Rightarrow> int" where
  "daysInMonth y m =
     (if m = 1 then (if isLeapYear y then 29 else 28)
      else if m = 3 \<or> m = 5 \<or> m = 8 \<or> m = 10 then 30 else 31)"

definition dayFromYear :: "int \<Rightarrow> int" where
  "dayFromYear y = 365 * (y - 1970) + (y - 1969) div 4 - (y - 1901) div 100 + (y - 1601) div 400"

definition daysBeforeMonth :: "int \<Rightarrow> int \<Rightarrow> int" where
  "daysBeforeMonth y m =
     (if m \<le> 0 then 0 else if m = 1 then 31 else if m = 2 then 59 else if m = 3 then 90
      else if m = 4 then 120 else if m = 5 then 151 else if m = 6 then 181
      else if m = 7 then 212 else if m = 8 then 243 else if m = 9 then 273
      else if m = 10 then 304 else 334)
       + (if 2 \<le> m \<and> isLeapYear y then 1 else 0)"

fun timeValue :: "jsdate \<Rightarrow> int option" where
  "timeValue InvalidDate = None"
| "timeValue (Civil y m d) = Some (dayFromYear y + daysBeforeMonth y m + d - 1)"

function normalizeDay :: "int \<Rightarrow> int \<Rightarrow> int \<Rightarrow> int \<times> int \<times> int" where
  "normalizeDay y m d =
     (if d < 1 then
        (if m = 0 then normalizeDay (y - 1) 11 (d + daysInMonth (y - 1) 11)
         else normalizeDay y (m - 1) (d + daysInMonth y (m - 1)))
      else if daysInMonth y m < d then
        (if m = 11 then normalizeDay (y + 1) 0 (d - daysInMonth y m)
         else normalizeDay y (m + 1) (d - daysInMonth y m))
      else (y, m, d))"
  by pat_completeness auto
termination
  by (relation "measure (\<lambda>(y, m, d). if d < 1 then nat (32 - d) else nat d)")
     (auto simp: daysInMonth_def)

declare normalizeDay.simps [simp del]

definition timeClip :: "jsdate \<Rightarrow> jsdate" where
  "timeClip dt =
     (case timeValue dt of
        None \<Rightarrow> InvalidDate
      | Some n \<Rightarrow> if 100000000 < \<bar>n\<bar> then InvalidDate else dt)"

definition makeDate :: "int \<Rightarrow> int \<Rightarrow> int \<Rightarrow> jsdate" where
  "makeDate y m d =
     (case normalizeDay (y + m div 12) (m mod 12) d of
        (y', m', d') \<Rightarrow> timeClip (Civil y' m' d'))"

fun newDate :: "int option \<Rightarrow> int option \<Rightarrow> int option \<Rightarrow> jsdate" where
  "newDate (Some y) (Some m) (Some d) = makeDate (if 0 \<le> y \<and> y \<le> 99 then 1900 + y else y) m d"
| "newDate _ _ _ = InvalidDate"

fun getFullYear :: "jsdate \<Rightarrow> int option" where
  "getFullYear InvalidDate = None"
| "getFullYear (Civil y m d) = Some y"

fun getMonth :: "jsdate \<Rightarrow> int option" where
  "getMonth InvalidDate = None"
| "getMonth (Civil y m d) = Some m"

fun getDate :: "jsdate \<Rightarrow> int option" where
  "getDate InvalidDate = None"
| "getDate (Civil y m d) = Some d"

fun setDate :: "jsdate \<Rightarrow> int option \<Rightarrow> jsdate" where
  "setDate (Civil y m _) (Some d) = makeDate y m d"
| "setDate _ _ = InvalidDate"

text \<open>\<^verbatim>\<open>isValidDate\<close> of forecast.ts, and the functions of date.ts.\<close>

definition isValidDate :: "jsdate \<Rightarrow> bool" where
  "isValidDate dt \<longleftrightarrow> timeValue dt \<noteq> None"

definition startOfDay :: "jsdate \<Rightarrow> jsdate" where
  "startOfDay dt = newDate (getFullYear dt) (getMonth dt) (getDate dt)"

definition plusOpt :: "int option \<Rightarrow> int \<Rightarrow> int option" where
  "plusOpt a n = map_option (\<lambda>x. x + n) a"

definition minOpt :: "int option \<Rightarrow> int option \<Rightarrow> int option" where
  "minOpt a b = (case (a, b) of (Some x, Some y) \<Rightarrow> Some (min x y) | _ \<Rightarrow> None)"

definition addDays :: "jsdate \<Rightarrow> int \<Rightarrow> jsdate" where
  "addDays dt days = (let next = startOfDay dt in setDate next (plusOpt (getDate next) days))"

definition addMonths :: "jsdate \<Rightarrow> int \<Rightarrow> jsdate" where
  "addMonths dt months =
     (let base = startOfDay dt;
          originalDate = getDate base;
          result = newDate (getFullYear base) (plusOpt (getMonth base) months) (Some 1);
          maxDay = getDate (newDate (getFullYear result) (plusOpt (getMonth result) 1) (Some 0))
      in setDate result (minOpt originalDate maxDay))"

definition addYears :: "jsdate \<Rightarrow> int \<Rightarrow> jsdate" where
  "addYears dt years =
     (let base = startOfDay dt;
          result = newDate (plusOpt (getFullYear base) years) (getMonth base) (Some 1);
          maxDay = getDate (newDate (getFullYear result) (plusOpt (getMonth result) 1) (Some 0))
      in setDate result (minOpt (getDate base) maxDay))"

definition parseISODate :: "platform \<Rightarrow> string \<Rightarrow> jsdate" where
  "parseISODate P dateString =
     (let parts = map (toNumber P) (splitDash dateString);
          year = (case parts of y # _ \<Rightarrow> y | _ \<Rightarrow> NaN);
          month = (case parts of _ # m # _ \<Rightarrow> Some m | _ \<Rightarrow> None);
          day = (case parts of _ # _ # d # _ \<Rightarrow> Some d | _ \<Rightarrow> None)
      in newDate (toInteger year) (toInteger (n_sub (nullish month (Fin 1)) (Fin 1)))
           (toInteger (nullish day (Fin 1))))"

text \<open>
  \<^verbatim>\<open>toISOString\<close> throws a \<^verbatim>\<open>RangeError\<close> on the invalid date. Years outside 0..9999 are
  written with a sign and six digits.
\<close>

datatype error = RangeError

definition isoYear :: "int \<Rightarrow> string" where
  "isoYear y =
     (if 0 \<le> y \<and> y \<le> 9999 then padStart 4 (decimal (nat y))
      else (if y < 0 then ''-'' else ''+'') @ padStart 6 (decimal (nat \<bar>y\<bar>)))"

fun toISOString :: "jsdate \<Rightarrow> error + string" where
  "toISOString InvalidDate = Inl RangeError"
| "toISOString (Civil y m d) =
     Inr (isoYear y @ ''-'' @ padStart 2 (decimal (nat (m + 1))) @ ''-''
          @ padStart 2 (decimal (nat d)) @ ''T00:00:00.000Z'')"

definition toISODate :: "jsdate \<Rightarrow> error + string" where
  "toISODate dt = map_sum id (take 10) (toISOString (startOfDay dt))"


text \<open>The relational operators on dates.\<close>

definition date_lt :: "jsdate \<Rightarrow> jsdate \<Rightarrow> bool" where
  "date_lt a b = (case (timeValue a, timeValue b) of (Some x, Some y) \<Rightarrow> x < y | _ \<Rightarrow> False)"

definition date_gt :: "jsdate \<Rightarrow> jsdate \<Rightarrow> bool" where
  "date_gt a b = date_lt b a"

definition date_ge :: "jsdate \<Rightarrow> jsdate \<Rightarrow> bool" where
  "date_ge a b = (case (timeValue a, timeValue b) of (Some x, Some y) \<Rightarrow> y \<le> x | _ \<Rightarrow> False)"

section \<open>Pay computation (computeGrossPayFromHourly, computeNetPayBreakdown)\<close>

definition roundToCents :: "number \<Rightarrow> number" where
  "roundToCents v = n_div (math_round (n_mul (n_add v EPSILON) (Fin 100))) (Fin 100)"

definition computeGrossPayFromHourly ::
  "pay_frequency \<Rightarrow> number option \<Rightarrow> number option \<Rightarrow> number" where
  "computeGrossPayFromHourly payFrequency' hourlyRate' hoursPerWeek' =
     (if \<not> isFiniteOpt hourlyRate' \<or> \<not> isFiniteOpt hoursPerWeek'
         \<or> n_le (nullish hourlyRate' (Fin 0)) (Fin 0) \<or> n_le (nullish hoursPerWeek' (Fin 0)) (Fin 0)
      then NaN
      else
        (let weeklyGross = n_mul (nullish hourlyRate' (Fin 0)) (nullish hoursPerWeek' (Fin 0))
         in case payFrequency' of
              PayWeekly \<Rightarrow> roundToCents weeklyGross
            | PayBiweekly \<Rightarrow> roundToCents (n_mul weeklyGross (Fin 2))
            | PaySemimonthly \<Rightarrow> roundToCents (n_div (n_mul weeklyGross (Fin 52)) (Fin 24))
            | PayMonthly \<Rightarrow> roundToCents (n_div (n_mul weeklyGross (Fin 52)) (Fin 12))))"

definition sumDeductionLines :: "deduction_line list \<Rightarrow> number \<Rightarrow> number" where
  "sumDeductionLines lines grossPay' =
     foldl (\<lambda>sum line.
              if \<not> isFinite (line_value line) \<or> n_lt (line_value line) (Fin 0) then sum
              else if line_type line = PercentOfGross
                then n_add sum (n_mul (n_div (line_value line) (Fin 100)) grossPay')
              else n_add sum (line_value line))
       (Fin 0) lines"

definition sumTaxWithheldLines :: "deduction_line list \<Rightarrow> number \<Rightarrow> number" where
  "sumTaxWithheldLines lines grossPay' =
     foldl (\<lambda>sum line.
              if \<not> isFinite (line_value line) \<or> n_lt (line_value line) (Fin 0) then sum
              else if line_type line = PercentOfGross
                then n_add sum (n_mul (n_div (line_value line) (Fin 100)) grossPay')
              else n_add sum (line_value line))
       (Fin 0) lines"

text \<open>
  The gross pay of calculate mode: hourly-derived or the literal, NaN when the literal is
  unset. It is the constant \<^verbatim>\<open>grossPay\<close> of \<^verbatim>\<open>computeNetPayBreakdown\<close>.
\<close>

definition configuredGross :: "paycheck_config \<Rightarrow> number" where
  "configuredGross config =
     (if grossInputMode config = Hourly
      then computeGrossPayFromHourly (payFrequency config) (hourlyRate config) (hoursPerWeek config)
      else nullish (grossPayAmount config) NaN)"

definition computeNetPayBreakdown :: "paycheck_config \<Rightarrow> net_pay_breakdown" where
  "computeNetPayBreakdown config =
     (if paycheckInputMode config = NetMode then
        (let netPay' = roundToCents (nullish (netPayAmount config) NaN)
         in \<lparr> grossPay = Fin 0, pretaxTotal = Fin 0, taxesTotal = Fin 0, posttaxTotal = Fin 0,
              loanRepaymentAmount = Fin 0, totalWithheldDeducted = Fin 0, netPay = netPay' \<rparr>)
      else
        (let grossPay' = configuredGross config
         in if \<not> isFinite grossPay' \<or> n_le grossPay' (Fin 0) then
              \<lparr> grossPay = grossPay', pretaxTotal = NaN, taxesTotal = NaN, posttaxTotal = NaN,
                loanRepaymentAmount = NaN, totalWithheldDeducted = NaN, netPay = NaN \<rparr>
            else
              (let pretaxTotal' = sumDeductionLines (pretaxDeductions config) grossPay';
                   taxesTotal' = sumTaxWithheldLines (taxesWithheld config) grossPay';
                   posttaxTotal' = sumDeductionLines (posttaxDeductions config) grossPay';
                   loanRepaymentAmount' =
                     (if isFinite (configLoanRepaymentAmount config)
                      then math_max (Fin 0) (configLoanRepaymentAmount config) else NaN);
                   totalWithheldDeducted' =
                     n_add (n_add (n_add pretaxTotal' taxesTotal') posttaxTotal') loanRepaymentAmount';
                   netPay' = n_sub grossPay' totalWithheldDeducted'
               in \<lparr> grossPay = roundToCents grossPay',
                    pretaxTotal = roundToCents pretaxTotal',
                    taxesTotal = roundToCents taxesTotal',
                    posttaxTotal = roundToCents posttaxTotal',
                    loanRepaymentAmount = roundToCents loanRepaymentAmount',
                    totalWithheldDeducted = roundToCents totalWithheldDeducted',
                    netPay = roundToCents netPay' \<rparr>)))"

definition computeNetPay :: "paycheck_config \<Rightarrow> number" where
  "computeNetPay config = netPay (computeNetPayBreakdown config)"

section \<open>Event generators (generateIncomeEvents, generateBonusEvents, generateExpenseEvents)\<close>

text \<open>\<^verbatim>\<open>day <= n\<close> on the result of a getter, false on NaN; and \<^verbatim>\<open>a >= b\<close> on numbers.\<close>

definition leOpt :: "int option \<Rightarrow> int \<Rightarrow> bool" where
  "leOpt a n = (case a of None \<Rightarrow> False | Some x \<Rightarrow> x \<le> n)"

definition n_ge :: "number \<Rightarrow> number \<Rightarrow> bool" where
  "n_ge a b = n_le b a"

definition addSemimonthly :: "jsdate \<Rightarrow> jsdate" where
  "addSemimonthly dt =
     (let day = getDate dt
      in if leOpt day 1 then newDate (getFullYear dt) (getMonth dt) (Some 15)
         else if leOpt day 15 then newDate (getFullYear dt) (plusOpt (getMonth dt) 1) (Some 1)
         else newDate (getFullYear dt) (plusOpt (getMonth dt) 1) (Some 15))"

text \<open>
  The \<^verbatim>\<open>default\<close> branches of the two \<^verbatim>\<open>switch\<close> statements are not reachable for a value
  of the declared union types and have no counterpart here.
\<close>

definition advanceIncomeDate :: "jsdate \<Rightarrow> pay_frequency \<Rightarrow> jsdate" where
  "advanceIncomeDate dt frequency =
     (case frequency of
        PayWeekly \<Rightarrow> addDays dt 7
      | PayBiweekly \<Rightarrow> addDays dt 14
      | PayMonthly \<Rightarrow> addMonths dt 1
      | PaySemimonthly \<Rightarrow> addSemimonthly dt)"

definition pushIncomeEvent ::
  "number \<Rightarrow> jsdate \<Rightarrow> nat \<Rightarrow> forecast_event list \<Rightarrow> error + forecast_event list" where
  "pushIncomeEvent netPayAmount' cursor i events =
     (case toISODate cursor of
        Inl e \<Rightarrow> Inl e
      | Inr isoDate \<Rightarrow>
          Inr (events @
            [\<lparr> event_id = ''income-'' @ isoDate @ ''-'' @ decimal i, date = isoDate, event_type = Income,
               item = ''Paycheck'', category = ''income'', amount = netPayAmount',
               sourceId = None \<rparr>]))"

text \<open>
  The \<^verbatim>\<open>for\<close> loop of \<^verbatim>\<open>generateIncomeEvents\<close>, from counter \<open>i\<close>. Besides the events it
  returns the number of times the loop body was entered.
\<close>

function incomeWalk ::
  "pay_frequency \<Rightarrow> number \<Rightarrow> jsdate \<Rightarrow> jsdate \<Rightarrow> nat \<Rightarrow> jsdate \<Rightarrow> forecast_event list
     \<Rightarrow> error + (nat \<times> forecast_event list)" where
  "incomeWalk frequency netPayAmount' horizonStart horizonEnd i cursor events =
     (if i < 5000 then
        (if date_gt cursor horizonEnd then Inr (Suc i, events)
         else
           (case (if date_ge cursor horizonStart then pushIncomeEvent netPayAmount' cursor i events
                  else Inr events) of
              Inl e \<Rightarrow> Inl e
            | Inr events' \<Rightarrow>
                incomeWalk frequency netPayAmount' horizonStart horizonEnd (Suc i)
                  (advanceIncomeDate cursor frequency) events'))
      else Inr (i, events))"
  by pat_completeness auto
termination
  by (relation "measure (\<lambda>(f, n, hs, he, i, c, ev). 5000 - i)") auto

declare incomeWalk.simps [simp del]

definition generateIncomeEvents ::
  "platform \<Rightarrow> paycheck_config \<Rightarrow> jsdate \<Rightarrow> jsdate \<Rightarrow> error + forecast_event list" where
  "generateIncomeEvents P config horizonStart horizonEnd =
     (if nextPayDate config = [] then Inr []
      else
        (let netPayAmount' = computeNetPay config
         in if \<not> isFinite netPayAmount' then Inr []
            else
              (let cursor = parseISODate P (nextPayDate config)
               in if \<not> isValidDate cursor then Inr []
                  else map_sum id snd
                         (incomeWalk (payFrequency config) netPayAmount' horizonStart horizonEnd
                            0 cursor []))))"







definition advanceExpenseDate :: "jsdate \<Rightarrow> expense_repeat \<Rightarrow> jsdate" where
  "advanceExpenseDate dt repeat' =
     (case repeat' of
        RepeatNone \<Rightarrow> addYears dt 1000
      | RepeatWeekly \<Rightarrow> addDays dt 7
      | RepeatBiweekly \<Rightarrow> addDays dt 14
      | RepeatMonthly \<Rightarrow> addMonths dt 1
      | RepeatYearly \<Rightarrow> addYears dt 1)"

text \<open>
  The test that selects variable-dates mode, and the callback of \<^verbatim>\<open>dueDates.forEach\<close>
  with the event it pushes for the entry \<open>(index, date)\<close>:
  \<^verbatim>\<open>expense.variableDatesEnabled && Array.isArray(expense.variableDueDates) &&
  expense.variableDueDates.length > 0\<close>.
\<close>

definition variableMode :: "expense \<Rightarrow> bool" where
  "variableMode expense \<longleftrightarrow>
     variableDatesEnabled expense = Some True
     \<and> (case variableDueDates expense of None \<Rightarrow> False | Some ds \<Rightarrow> 0 < length ds)"

definition variableEvent :: "expense \<Rightarrow> nat \<times> string \<Rightarrow> forecast_event" where
  "variableEvent expense = (\<lambda>(index, date').
     \<lparr> event_id = ''expense-'' @ expense_id expense @ ''-'' @ date' @ ''-variable-'' @ decimal index,
       date = date', event_type = Expense, item = name expense,
       category = expense_category expense, amount = expense_amount expense,
       sourceId = Some (expense_id expense) \<rparr>)"

definition variableStep ::
  "platform \<Rightarrow> expense \<Rightarrow> jsdate \<Rightarrow> jsdate \<Rightarrow> forecast_event list \<Rightarrow> nat \<times> string
     \<Rightarrow> forecast_event list" where
  "variableStep P expense horizonStart horizonEnd events entry =
     (let due = parseISODate P (snd entry)
      in if \<not> isValidDate due \<or> date_lt due horizonStart \<or> date_gt due horizonEnd then events
         else events @ [variableEvent expense entry])"

definition maxOccurrences :: "expense \<Rightarrow> number" where
  "maxOccurrences expense =
     (if repeat expense = RepeatNone then Fin 1
      else if isFiniteOpt (repeatCount expense) \<and> n_gt (nullish (repeatCount expense) (Fin 0)) (Fin 0)
        then math_floor (nullish (repeatCount expense) (Fin 0))
      else PosInf)"

definition pushExpenseEvent ::
  "expense \<Rightarrow> jsdate \<Rightarrow> nat \<Rightarrow> forecast_event list \<Rightarrow> error + forecast_event list" where
  "pushExpenseEvent expense cursor i events =
     (case toISODate cursor of
        Inl e \<Rightarrow> Inl e
      | Inr isoDate \<Rightarrow>
          Inr (events @
            [\<lparr> event_id = ''expense-'' @ expense_id expense @ ''-'' @ isoDate @ ''-'' @ decimal i,
               date = isoDate, event_type = Expense, item = name expense,
               category = expense_category expense, amount = expense_amount expense,
               sourceId = Some (expense_id expense) \<rparr>]))"

text \<open>
  The \<^verbatim>\<open>for\<close> loop of the fixed schedule, from counter \<open>i\<close>, with the number of times the
  loop body was entered.
\<close>

function expenseWalk ::
  "expense \<Rightarrow> jsdate \<Rightarrow> jsdate \<Rightarrow> number \<Rightarrow> nat \<Rightarrow> nat \<Rightarrow> jsdate \<Rightarrow> forecast_event list
     \<Rightarrow> error + (nat \<times> forecast_event list)" where
  "expenseWalk expense horizonStart horizonEnd maxOccurrences' i occurrenceIndex cursor events =
     (if i < 5000 then
        (if n_ge (Fin (real occurrenceIndex)) maxOccurrences' then Inr (Suc i, events)
         else if date_gt cursor horizonEnd then Inr (Suc i, events)
         else
           (case (if date_ge cursor horizonStart then pushExpenseEvent expense cursor i events
                  else Inr events) of
              Inl e \<Rightarrow> Inl e
            | Inr events' \<Rightarrow>
                if repeat expense = RepeatNone then Inr (Suc i, events')
                else expenseWalk expense horizonStart horizonEnd maxOccurrences' (Suc i)
                       (Suc occurrenceIndex) (advanceExpenseDate cursor (repeat expense)) events'))
      else Inr (i, events))"
  by pat_completeness auto
termination
  by (relation "measure (\<lambda>(e, hs, he, mx, i, oc, c, ev). 5000 - i)") auto

declare expenseWalk.simps [simp del]

text \<open>The callback of \<^verbatim>\<open>expenses.forEach\<close>, and the fixed-schedule part of it on its own.\<close>

definition fixedSchedule ::
  "platform \<Rightarrow> expense \<Rightarrow> jsdate \<Rightarrow> jsdate \<Rightarrow> forecast_event list
     \<Rightarrow> error + (nat \<times> forecast_event list)" where
  "fixedSchedule P expense horizonStart horizonEnd events =
     (let cursor = parseISODate P (firstDueDate expense)
      in expenseWalk expense horizonStart horizonEnd (maxOccurrences expense) 0 0 cursor events)"

definition expenseCallback ::
  "platform \<Rightarrow> jsdate \<Rightarrow> jsdate \<Rightarrow> forecast_event list \<Rightarrow> expense \<Rightarrow> error + forecast_event list" where
  "expenseCallback P horizonStart horizonEnd events expense =
     (if variableMode expense then
        (let dueDates = array_sort (localeCompare P) (nullish (variableDueDates expense) [])
         in Inr (foldl (variableStep P expense horizonStart horizonEnd) events
                   (enumerate 0 dueDates)))
      else map_sum id snd (fixedSchedule P expense horizonStart horizonEnd events))"

fun forEachExpense ::
  "platform \<Rightarrow> jsdate \<Rightarrow> jsdate \<Rightarrow> forecast_event list \<Rightarrow> expense list \<Rightarrow> error + forecast_event list" where
  "forEachExpense P horizonStart horizonEnd events [] = Inr events"
| "forEachExpense P horizonStart horizonEnd events (expense # rest) =
     (case expenseCallback P horizonStart horizonEnd events expense of
        Inl e \<Rightarrow> Inl e
      | Inr events' \<Rightarrow> forEachExpense P horizonStart horizonEnd events' rest)"

definition generateExpenseEvents ::
  "platform \<Rightarrow> expense list \<Rightarrow> jsdate \<Rightarrow> jsdate \<Rightarrow> error + forecast_event list" where
  "generateExpenseEvents P expenses horizonStart horizonEnd =
     forEachExpense P horizonStart horizonEnd [] expenses"

section \<open>Forecast builder (compareEvents, buildForecast)\<close>

definition compareEvents ::
  "platform \<Rightarrow> 'a forecast_event_scheme \<Rightarrow> 'b forecast_event_scheme \<Rightarrow> int" where
  "compareEvents P a b =
     (if date a \<noteq> date b then localeCompare P (date a) (date b)
      else if event_type a \<noteq> event_type b then (if event_type a = Income then - 1 else 1)
      else if event_type a = Expense \<and> event_type b = Expense \<and> category a \<noteq> category b
        then localeCompare P (category a) (category b)
      else localeCompare P (item a) (item b))"

text \<open>The row \<^verbatim>\<open>{ ...event, runningBalance }\<close>.\<close>

definition withBalance :: "forecast_event \<Rightarrow> number \<Rightarrow> forecast_row" where
  "withBalance event rb =
     \<lparr> event_id = event_id event, date = date event, event_type = event_type event,
       item = item event, category = category event, amount = amount event,
       sourceId = sourceId event, runningBalance = rb \<rparr>"

text \<open>
  \<^verbatim>\<open>runningBalance += event.type === 'income' ? event.amount : -event.amount\<close>, and the
  \<^verbatim>\<open>map\<close> over the sorted events that threads \<^verbatim>\<open>runningBalance\<close> through its callback.
\<close>

definition post :: "number \<Rightarrow> 'a forecast_event_scheme \<Rightarrow> number" where
  "post rb event = n_add rb (if event_type event = Income then amount event else n_neg (amount event))"

fun mapRunning :: "number \<Rightarrow> forecast_event list \<Rightarrow> forecast_row list" where
  "mapRunning rb [] = []"
| "mapRunning rb (event # rest) = withBalance event (post rb event) # mapRunning (post rb event) rest"

definition buildForecast :: "platform \<Rightarrow> forecast_event list \<Rightarrow> number \<Rightarrow> forecast_row list" where
  "buildForecast P events startingBalance =
     (let sorted' = array_sort (compareEvents P) events
      in mapRunning startingBalance sorted')"

text \<open>
  The order of the specification, in its words: \<open>a\<close> may stand before \<open>b\<close> when \<open>a\<close>'s
  date is earlier; or, on the same date, when \<open>a\<close> is income and \<open>b\<close> is expense; or both
  are expenses and \<open>a\<close>'s category is earlier; or nothing of that separates them and \<open>a\<close>'s
  item is not later. Earlier and later are those of the ascending lexicographic order of
  strings, the order of their code units.
\<close>

definition spec_before :: "'a forecast_event_scheme \<Rightarrow> 'b forecast_event_scheme \<Rightarrow> bool" where
  "spec_before a b \<longleftrightarrow>
     date a < date b
     \<or> (date a = date b \<and>
         ((event_type a = Income \<and> event_type b = Expense)
          \<or> (event_type a = Expense \<and> event_type b = Expense \<and> category a < category b)
          \<or> (event_type a = event_type b \<and> (event_type a = Income \<or> category a = category b)
               \<and> item a \<le> item b)))"

text \<open>
  The same order with earlier and later read off a comparator \<open>lc\<close> of strings instead:
  \<open>a\<close> is earlier than \<open>b\<close> when \<open>lc a b\<close> is negative.
\<close>

definition collation_before ::
  "(string \<Rightarrow> string \<Rightarrow> int) \<Rightarrow> 'a forecast_event_scheme \<Rightarrow> 'b forecast_event_scheme \<Rightarrow> bool" where
  "collation_before lc a b \<longleftrightarrow>
     lc (date a) (date b) < 0
     \<or> (date a = date b \<and>
         ((event_type a = Income \<and> event_type b = Expense)
          \<or> (event_type a = Expense \<and> event_type b = Expense \<and> lc (category a) (category b) < 0)
          \<or> (event_type a = event_type b \<and> (event_type a = Income \<or> category a = category b)
               \<and> lc (item a) (item b) \<le> 0)))"

text \<open>
  What a comparator may do on a set of strings: \<open>linearOn lc S\<close> says that \<open>lc\<close> compares
  the strings of \<open>S\<close> as a linear order does (zero for equal strings only, opposite signs
  for opposite arguments, transitive); \<open>lexicographicOn lc S\<close> says that on \<open>S\<close> the sign
  of \<open>lc\<close> is that of the lexicographic order.
\<close>

definition linearOn :: "(string \<Rightarrow> string \<Rightarrow> int) \<Rightarrow> string set \<Rightarrow> bool" where
  "linearOn lc S \<longleftrightarrow>
     (\<forall>a \<in> S. \<forall>b \<in> S.
        ((lc a b = 0) = (a = b)) \<and> ((lc a b < 0) = (0 < lc b a))
        \<and> (\<forall>c \<in> S. lc a b < 0 \<and> lc b c < 0 \<longrightarrow> lc a c < 0))"

definition lexicographicOn :: "(string \<Rightarrow> string \<Rightarrow> int) \<Rightarrow> string set \<Rightarrow> bool" where
  "lexicographicOn lc S \<longleftrightarrow>
     (\<forall>a \<in> S. \<forall>b \<in> S. ((lc a b < 0) = (a < b)) \<and> ((lc a b = 0) = (a = b)))"

section \<open>Payday metrics (computeNextPaydayMetrics)\<close>

definition computeNextPaydayMetrics ::
  "forecast_row list \<Rightarrow> string \<Rightarrow> number \<Rightarrow> number \<Rightarrow> payday_metrics" where
  "computeNextPaydayMetrics forecastRows nextPaydayDate' minimumBuffer startingBalance =
     (let rowsUntilPayday = filter (\<lambda>row. date row \<le> nextPaydayDate') forecastRows;
          balanceOnNextPayday' =
            (if length rowsUntilPayday \<noteq> 0
             then runningBalance (rowsUntilPayday ! (length rowsUntilPayday - 1))
             else startingBalance);
          rowsBeforePaydayIncome = filter (\<lambda>row. date row < nextPaydayDate') forecastRows;
          lowestBalanceBeforeNextPayday' =
            foldl (\<lambda>min' row. math_min min' (runningBalance row)) startingBalance
              rowsBeforePaydayIncome
      in \<lparr> nextPaydayDate = nextPaydayDate',
           balanceOnNextPayday = balanceOnNextPayday',
           lowestBalanceBeforeNextPayday = lowestBalanceBeforeNextPayday',
           safeToSpendUntilNextPayday = n_sub lowestBalanceBeforeNextPayday' minimumBuffer \<rparr>)"

section \<open>View layer (createFiniteExpenseIdSet)\<close>

text \<open>
  \<open>countStep\<close> is the callback of \<^verbatim>\<open>forecastRows.forEach\<close>. Its guard
  \<^verbatim>\<open>!row.sourceId\<close> holds when the source id is absent and also when it is the empty
  string.
\<close>

definition countStep :: "(string \<times> nat) list \<Rightarrow> forecast_row \<Rightarrow> (string \<times> nat) list" where
  "countStep occurrenceCountBySourceId row =
     (case sourceId row of
        None \<Rightarrow> occurrenceCountBySourceId
      | Some sid \<Rightarrow>
          if event_type row \<noteq> Expense \<or> sid = [] then occurrenceCountBySourceId
          else map_set occurrenceCountBySourceId sid
                 ((case map_get occurrenceCountBySourceId sid of None \<Rightarrow> 0 | Some c \<Rightarrow> c) + 1))"

definition countOccurrences :: "forecast_row list \<Rightarrow> (string \<times> nat) list" where
  "countOccurrences forecastRows = foldl countStep [] forecastRows"

definition createFiniteExpenseIdSet :: "expense list \<Rightarrow> forecast_row list \<Rightarrow> string set" where
  "createFiniteExpenseIdSet expenses forecastRows =
     (let hasAnyExplicitHighlightEnabled =
            list_ex (\<lambda>expense. highlightLastEvent expense = Some True) expenses;
          highlightEnabledIds =
            set (map expense_id
                  (filter (\<lambda>expense. if hasAnyExplicitHighlightEnabled
                                       then highlightLastEvent expense = Some True else True)
                     expenses));
          occurrenceCountBySourceId = countOccurrences forecastRows
      in set (map fst
                (filter (\<lambda>(sourceId', count). sourceId' \<in> highlightEnabledIds \<and> 1 < count)
                   occurrenceCountBySourceId)))"

text \<open>
  Eligibility for highlighting, in the words of the specification: an expense is eligible
  when it opted in explicitly, and every expense is eligible when none did.
\<close>

definition spec_eligible :: "expense list \<Rightarrow> expense \<Rightarrow> bool" where
  "spec_eligible expenses e \<longleftrightarrow>
     highlightLastEvent e = Some True
     \<or> \<not> (\<exists>e' \<in> set expenses. highlightLastEvent e' = Some True)"

definition spec_occurrences :: "forecast_row list \<Rightarrow> string \<Rightarrow> nat" where
  "spec_occurrences forecastRows sid =
     length (filter (\<lambda>r. event_type r = Expense \<and> sourceId r = Some sid) forecastRows)"

section \<open>A concrete host and concrete inputs, for the examples\<close>

text \<open>
  A host whose collation is the code-unit order and whose \<^verbatim>\<open>Number\<close> reads strings of
  decimal digits (the empty string is 0, as in the source language; the value is rounded
  to the nearest double) and is NaN on every other string.
\<close>

definition codeUnitCompare :: "string \<Rightarrow> string \<Rightarrow> int" where
  "codeUnitCompare a b = (if a < b then - 1 else if a = b then 0 else 1)"

definition isDigit :: "char \<Rightarrow> bool" where
  "isDigit c \<longleftrightarrow> CHR ''0'' \<le> c \<and> c \<le> CHR ''9''"

definition digitValue :: "char \<Rightarrow> nat" where
  "digitValue c = of_char c - 48"

definition decimalNumber :: "string \<Rightarrow> number" where
  "decimalNumber s =
     (if list_all isDigit s then fl (real (foldl (\<lambda>n c. 10 * n + digitValue c) 0 s)) else NaN)"

definition host :: platform where
  "host = \<lparr> localeCompare = codeUnitCompare, toNumber = decimalNumber \<rparr>"

text \<open>
  A second host, whose collation is the kind a locale gives: strings are compared by
  their letters without regard to case first, and when they differ in case only, the one
  with the lower-case letter at the first difference comes first. On strings of ASCII
  letters and digits this is the order of the default Unicode collation table (digits
  before letters, \<^verbatim>\<open>'apple'\<close> before \<^verbatim>\<open>'Banana'\<close>, \<^verbatim>\<open>'a'\<close> before \<^verbatim>\<open>'A'\<close>); other
  characters are left in the order of their code units.
\<close>

definition caseFolded :: "string \<Rightarrow> nat list" where
  "caseFolded s =
     map (\<lambda>c. if CHR ''A'' \<le> c \<and> c \<le> CHR ''Z'' then of_char c + 32 else of_char c) s"

definition alphabetCompare :: "string \<Rightarrow> string \<Rightarrow> int" where
  "alphabetCompare a b =
     (if caseFolded a < caseFolded b then - 1
      else if caseFolded b < caseFolded a then 1
      else if a = b then 0
      else if b < a then - 1 else 1)"

definition alphabetHost :: platform where
  "alphabetHost = \<lparr> localeCompare = alphabetCompare, toNumber = decimalNumber \<rparr>"

definition paycheckEvent :: forecast_event where
  "paycheckEvent =
     \<lparr> event_id = ''income-2024-03-01-0'', date = ''2024-03-01'', event_type = Income,
       item = ''Paycheck'', category = ''income'', amount = Fin 1000, sourceId = None \<rparr>"

definition rentEvent :: forecast_event where
  "rentEvent =
     \<lparr> event_id = ''expense-e1-2024-03-01-0'', date = ''2024-03-01'', event_type = Expense,
       item = ''Rent'', category = ''rent'', amount = Fin 800, sourceId = Some ''e1'' \<rparr>"

text \<open>Two expenses of one category on one date, for apples and for bananas.\<close>

definition appleEvent :: forecast_event where
  "appleEvent =
     \<lparr> event_id = ''expense-e2-2024-03-01-0'', date = ''2024-03-01'', event_type = Expense,
       item = ''apple'', category = ''food'', amount = Fin 3, sourceId = Some ''e2'' \<rparr>"

definition bananaEvent :: forecast_event where
  "bananaEvent =
     \<lparr> event_id = ''expense-e3-2024-03-01-0'', date = ''2024-03-01'', event_type = Expense,
       item = ''Banana'', category = ''food'', amount = Fin 2, sourceId = Some ''e3'' \<rparr>"

text \<open>The rows of the example in the specification (fields it leaves open are filled in).\<close>

definition exampleRows :: "forecast_row list" where
  "exampleRows =
     [\<lparr> event_id = ''income-2024-01-05-0'', date = ''2024-01-05'', event_type = Income,
        item = ''Paycheck'', category = ''income'', amount = Fin 50, sourceId = None,
        runningBalance = Fin 100 \<rparr>,
      \<lparr> event_id = ''expense-e1-2024-01-10-0'', date = ''2024-01-10'', event_type = Expense,
        item = ''Rent'', category = ''rent'', amount = Fin 20, sourceId = Some ''e1'',
        runningBalance = Fin 80 \<rparr>]"


text \<open>Expenses and rows for the examples of the view layer.\<close>

definition gymExpense :: expense where
  "gymExpense =
     \<lparr> expense_id = ''g1'', name = ''Gym'', expense_amount = Fin 30,
       firstDueDate = ''2024-03-05'', variableDatesEnabled = None, variableDueDates = None,
       repeatCount = None, highlightLastEvent = None, repeat = RepeatMonthly,
       expense_category = ''health'', expense_notes = None \<rparr>"

definition gymRows :: "forecast_row list" where
  "gymRows =
     [\<lparr> event_id = ''expense-g1-2024-03-05-0'', date = ''2024-03-05'', event_type = Expense,
        item = ''Gym'', category = ''health'', amount = Fin 30, sourceId = Some ''g1'',
        runningBalance = Fin 70 \<rparr>,
      \<lparr> event_id = ''expense-g1-2024-04-05-1'', date = ''2024-04-05'', event_type = Expense,
        item = ''Gym'', category = ''health'', amount = Fin 30, sourceId = Some ''g1'',
        runningBalance = Fin 40 \<rparr>]"

definition blankIdExpense :: expense where
  "blankIdExpense = gymExpense \<lparr> expense_id := [], highlightLastEvent := Some True \<rparr>"

definition blankIdRows :: "forecast_row list" where
  "blankIdRows = map (\<lambda>r. r \<lparr> sourceId := Some [] \<rparr>) gymRows"

text \<open>
  A configuration in calculate mode whose direct gross amount is zero, with one pretax
  deduction and one tax line.
\<close>

definition zeroGrossConfig :: paycheck_config where
  "zeroGrossConfig =
     \<lparr> paycheckInputMode = CalculateMode, grossInputMode = Direct, netPayAmount = None,
       grossPayAmount = Some (Fin 0), hourlyRate = None, hoursPerWeek = None,
       pretaxDeductions =
         [\<lparr> line_id = ''d1'', line_name = ''HSA'', line_type = Fixed, line_value = Fin 10 \<rparr>],
       taxesWithheld =
         [\<lparr> line_id = ''t1'', line_name = ''Medicare'', line_type = PercentOfGross,
            line_value = Fin 5 \<rparr>],
       posttaxDeductions = [], configLoanRepaymentAmount = Fin 25, payFrequency = PayBiweekly,
       nextPayDate = ''2024-03-01'', monthlyBonusAmount = None \<rparr>"

text \<open>
  Three configurations in calculate mode with hourly input, otherwise as above: one with
  an hourly rate of zero; one whose rate and hours are both 2 to the power 1000, whose
  product overflows; and a semimonthly one with one hour a week at the rate
  83143377736067 / 2 ^ 55 (the double \<^verbatim>\<open>0x1.2e794dfb460c0p-9\<close>, about 0.0023), whose gross
  before rounding to cents is just below half a cent.
\<close>

definition zeroRateConfig :: paycheck_config where
  "zeroRateConfig =
     zeroGrossConfig \<lparr> grossInputMode := Hourly, hourlyRate := Some (Fin 0),
                       hoursPerWeek := Some (Fin 40) \<rparr>"

definition overflowConfig :: paycheck_config where
  "overflowConfig =
     zeroGrossConfig \<lparr> grossInputMode := Hourly, hourlyRate := Some (Fin (2 ^ 1000)),
                       hoursPerWeek := Some (Fin (2 ^ 1000)) \<rparr>"

definition halfCentConfig :: paycheck_config where
  "halfCentConfig =
     zeroGrossConfig \<lparr> grossInputMode := Hourly,
                       hourlyRate := Some (Fin (83143377736067 / 2 ^ 55)),
                       hoursPerWeek := Some (Fin 1), payFrequency := PaySemimonthly \<rparr>"





text \<open>
  Expenses for the examples of the generators: a weekly gym fee; the same with a first due
  date that is no date; a one-off fee with a repeat count; an expense with variable dates
  switched on and an empty list of dates, once with no repeat and once weekly; an expense
  with three variable dates; a one-off fee whose amount is NaN; and the expense with three
  variable dates with an amount of -30.
\<close>

definition weeklyGym :: expense where
  "weeklyGym = gymExpense \<lparr> firstDueDate := ''2024-01-01'', repeat := RepeatWeekly \<rparr>"

definition brokenGym :: expense where
  "brokenGym = weeklyGym \<lparr> firstDueDate := ''soon'' \<rparr>"

definition oneOffFee :: expense where
  "oneOffFee = gymExpense \<lparr> repeat := RepeatNone, repeatCount := Some (Fin 12) \<rparr>"

definition emptyVariable :: expense where
  "emptyVariable =
     gymExpense \<lparr> variableDatesEnabled := Some True, variableDueDates := Some [],
                  repeat := RepeatNone \<rparr>"

definition emptyVariableWeekly :: expense where
  "emptyVariableWeekly = emptyVariable \<lparr> repeat := RepeatWeekly \<rparr>"

definition variableGym :: expense where
  "variableGym =
     gymExpense \<lparr> variableDatesEnabled := Some True,
                  variableDueDates := Some [''2024-03-20'', ''2024-03-02'', ''2025-01-01''] \<rparr>"

definition nanFee :: expense where
  "nanFee = oneOffFee \<lparr> expense_amount := NaN \<rparr>"

definition negativeGym :: expense where
  "negativeGym = variableGym \<lparr> expense_amount := Fin (- 30) \<rparr>"

text \<open>March 2024, and the year from 2024-01-01 to 2025-01-01, as horizons.\<close>

definition marchStart :: jsdate where "marchStart = Civil 2024 2 1"

definition marchEnd :: jsdate where "marchEnd = Civil 2024 2 31"

definition yearStart :: jsdate where "yearStart = Civil 2024 0 1"

definition yearEnd :: jsdate where "yearEnd = Civil 2025 0 1"

section \<open>Auxiliary notions of the proofs\<close>

text \<open>The count a key has in a map of counts, zero when the key is absent.\<close>

definition countOf :: "(string \<times> nat) list \<Rightarrow> string \<Rightarrow> nat" where
  "countOf m sid = (case map_of m sid of None \<Rightarrow> 0 | Some c \<Rightarrow> c)"




text \<open>
  A well-formed date: the invalid date, or a civil date with a month from 0 to 11, a day
  that its month has, and a time value within the host's range. Every date the host
  constructs is well formed.
\<close>

fun wf_date :: "jsdate \<Rightarrow> bool" where
  "wf_date InvalidDate = True"
| "wf_date (Civil y m d) \<longleftrightarrow>
     0 \<le> m \<and> m < 12 \<and> 1 \<le> d \<and> d \<le> daysInMonth y m
     \<and> \<bar>dayFromYear y + daysBeforeMonth y m + d - 1\<bar> \<le> 100000000"


text \<open>An event that carries the fields of an expense: name, category, amount and id.\<close>

definition fromExpense :: "expense \<Rightarrow> forecast_event \<Rightarrow> bool" where
  "fromExpense x ev \<longleftrightarrow>
     event_type ev = Expense \<and> item ev = name x \<and> category ev = expense_category x
     \<and> amount ev = expense_amount x \<and> sourceId ev = Some (expense_id x)"


text \<open>An event with its amount left out of account (set to zero).\<close>

definition blankAmount :: "forecast_event \<Rightarrow> forecast_event" where
  "blankAmount ev = ev \<lparr> amount := Fin 0 \<rparr>"


text \<open>
  The number of dates a week apart that fit between a cursor and the end of a horizon that
  starts on day \<open>s\<close> and ends on day \<open>e\<close>, none of them before the start.
\<close>

definition weeklySlots :: "int \<Rightarrow> int \<Rightarrow> jsdate \<Rightarrow> int" where
  "weeklySlots s e cursor =
     (case timeValue cursor of
        None \<Rightarrow> 0
      | Some c \<Rightarrow> if e < c then 0 else max 0 ((e - max c s) div 7 + 1))"


text \<open>
  A due date falls within the horizon when it parses to a valid date that is neither
  before the start nor after the end of the horizon.
\<close>

definition inHorizon :: "platform \<Rightarrow> jsdate \<Rightarrow> jsdate \<Rightarrow> string \<Rightarrow> bool" where
  "inHorizon P hs he d \<longleftrightarrow>
     isValidDate (parseISODate P d) \<and> \<not> date_lt (parseISODate P d) hs
     \<and> \<not> date_gt (parseISODate P d) he"

section \<open>Properties of the platform functions\<close>

text \<open>Rounding to the nearest double leaves an integer below 2 to the power 53 as it is.\<close>

lemma binade_unfold:
  "binade n x = (if n = 0 then 0 else if 2 \<le> x then binade (n - 1) (x / 2) + 1
                 else if x < 1 then binade (n - 1) (2 * x) - 1 else 0)"
  by (cases n) simp_all

lemma binade_le: "0 < x \<Longrightarrow> x < 2 ^ Suc E \<Longrightarrow> binade n x \<le> int E"
proof (induction n arbitrary: x E)
  case 0
  then show ?case by simp
next
  case (Suc n)
  show ?case
  proof (cases "2 \<le> x")
    case True
    then obtain E' where E: "E = Suc E'" using Suc.prems(2) by (cases E) auto
    have "binade n (x / 2) \<le> int E'"
      by (rule Suc.IH) (use Suc.prems E in auto)
    then show ?thesis using True E by simp
  next
    case False
    show ?thesis
    proof (cases "x < 1")
      case True
      have "binade n (2 * x) \<le> int (Suc E)"
        by (rule Suc.IH) (use Suc.prems in auto)
      then show ?thesis using True False by simp
    next
      case False
      then show ?thesis using \<open>\<not> 2 \<le> x\<close> by simp
    qed
  qed
qed

lemma roundHalfEven_of_int [simp]: "roundHalfEven (of_int j) = j"
  by (simp add: roundHalfEven_def)

lemmas double_eval = fl_def pow2_def binade_unfold roundHalfEven_def Let_def

lemma fl_pos_int:
  assumes "0 < k" "k < 2 ^ 53"
  shows "fl (of_int k) = Fin (of_int k)"
proof -
  let ?a = "of_int k :: real"
  have a1: "1 \<le> ?a" using assms(1) by simp
  have a2: "?a < 2 ^ Suc 52"
  proof -
    have "(of_int k :: real) < of_int (2 ^ 53)" using assms(2) by (simp only: of_int_less_iff)
    then show ?thesis by simp
  qed
  have big: "\<not> pow2 1024 \<le> ?a"
  proof -
    have "(2::real) ^ 53 \<le> 2 ^ 1024" by (rule power_increasing) simp_all
    then show ?thesis using a2 by (simp add: pow2_def)
  qed
  have small: "\<not> ?a < pow2 (- 1022)"
  proof -
    have "pow2 (- 1022) \<le> 1" by (simp add: pow2_def)
    then show ?thesis using a1 by linarith
  qed
  define e where "e = binade 1100 ?a"
  have e: "e \<le> 52" unfolding e_def using binade_le[of ?a 52 1100] a1 a2 by simp
  define m where "m = nat (52 - e)"
  have q: "pow2 (e - 52) = 1 / 2 ^ m"
    using e by (auto simp: pow2_def m_def)
  have div: "?a / pow2 (e - 52) = of_int (k * 2 ^ m)" by (simp add: q)
  have r: "of_int (roundHalfEven (?a / pow2 (e - 52))) * pow2 (e - 52) = ?a"
    by (simp only: div roundHalfEven_of_int) (simp add: q)
  show ?thesis
    unfolding fl_def Let_def using assms(1) big small
    by (simp add: e_def[symmetric] r)
qed

lemma fl_of_int:
  assumes "\<bar>k\<bar> < 2 ^ 53"
  shows "fl (of_int k) = Fin (of_int k)"
proof (cases "0 < k")
  case True
  then show ?thesis using assms by (simp add: fl_pos_int)
next
  case False
  show ?thesis
  proof (cases "k = 0")
    case True
    then show ?thesis by (simp add: fl_def)
  next
    case False
    then have n: "0 < - k" "- k < 2 ^ 53" using \<open>\<not> 0 < k\<close> assms by simp_all
    have "fl (of_int k) = n_neg (fl (of_int (- k)))"
      using n(1) by (simp add: fl_def Let_def)
    also have "\<dots> = n_neg (Fin (of_int (- k)))" by (simp only: fl_pos_int[OF n])
    finally show ?thesis by simp
  qed
qed

lemma fl_zero [simp]: "fl 0 = Fin 0"
  by (simp add: fl_def)

lemma fl_one [simp]: "fl 1 = Fin 1"
  using fl_of_int[of 1] by simp

lemma fl_minus_one [simp]: "fl (- 1) = Fin (- 1)"
  using fl_of_int[of "- 1"] by simp

lemma fl_numeral [simp]: "numeral w < (2::int) ^ 53 \<Longrightarrow> fl (numeral w) = Fin (numeral w)"
  using fl_of_int[of "numeral w"] by simp

lemma fl_neg_numeral [simp]:
  "numeral w < (2::int) ^ 53 \<Longrightarrow> fl (- numeral w) = Fin (- numeral w)"
  using fl_of_int[of "- numeral w"] by simp

lemma fl_of_nat: "n < 2 ^ 53 \<Longrightarrow> fl (real n) = Fin (real n)"
  using fl_of_int[of "int n"] by (simp add: of_nat_less_iff[of n "2^53", where 'a = int, symmetric] del: of_nat_less_iff)

lemma collation_le0: "collation lc \<Longrightarrow> (lc a b \<le> 0) = (lc a b < 0 \<or> a = b)"
  unfolding collation_def by (metis less_le order.refl)

lemma collation_total: "collation lc \<Longrightarrow> a \<noteq> b \<Longrightarrow> lc a b < 0 \<or> lc b a < 0"
  unfolding collation_def by (metis linorder_neqE_linordered_idom)

lemma collation_trans: "collation lc \<Longrightarrow> lc a b < 0 \<Longrightarrow> lc b c < 0 \<Longrightarrow> lc a c < 0"
  unfolding collation_def by blast

lemma collation_irrefl: "collation lc \<Longrightarrow> \<not> lc a a < 0"
  unfolding collation_def by (metis less_irrefl)

lemma collation_neq: "collation lc \<Longrightarrow> lc a b < 0 \<Longrightarrow> a \<noteq> b"
  using collation_irrefl by blast

lemma collation_cmp_total: "lc a b \<le> 0 \<or> lc b a \<le> 0" if "collation lc"
proof (cases "a = b")
  case True
  then show ?thesis using that by (simp add: collation_le0)
next
  case False
  then have "lc a b < 0 \<or> lc b a < 0" using that by (rule collation_total[rotated])
  then show ?thesis by auto
qed

lemma collation_cmp_trans:
  assumes c: "collation lc" and ab: "lc a b \<le> 0" and bc: "lc b c \<le> 0"
  shows "lc a c \<le> 0"
proof -
  from ab bc have "(lc a b < 0 \<or> a = b) \<and> (lc b c < 0 \<or> b = c)"
    by (simp add: collation_le0[OF c])
  then have "lc a c < 0 \<or> a = c" using collation_trans[OF c, of a b c] by auto
  then show ?thesis by (simp add: collation_le0[OF c])
qed

lemma collation_codeUnitCompare: "collation codeUnitCompare"
  unfolding collation_def codeUnitCompare_def by auto

lemma mset_sort_insert: "mset (sort_insert cmp x xs) = add_mset x (mset xs)"
  by (induction xs) simp_all

lemma mset_array_sort: "mset (array_sort cmp xs) = mset xs"
  by (induction xs) (simp_all add: mset_sort_insert)

lemma set_sort_insert: "set (sort_insert cmp x xs) = insert x (set xs)"
  by (induction xs) auto

lemma sorted_sort_insert:
  assumes total: "\<And>a b. cmp a b \<le> 0 \<or> cmp b a \<le> 0"
    and trans: "\<And>a b c. cmp a b \<le> 0 \<Longrightarrow> cmp b c \<le> 0 \<Longrightarrow> cmp a c \<le> 0"
  shows "sorted_wrt (\<lambda>a b. cmp a b \<le> 0) xs \<Longrightarrow> sorted_wrt (\<lambda>a b. cmp a b \<le> 0) (sort_insert cmp x xs)"
proof (induction xs)
  case Nil
  then show ?case by simp
next
  case (Cons y ys)
  show ?case
  proof (cases "cmp x y \<le> 0")
    case True
    then have "\<forall>z \<in> set ys. cmp x z \<le> 0" using Cons.prems trans by auto
    then show ?thesis using True Cons.prems by simp
  next
    case False
    then have "cmp y x \<le> 0" using total[of x y] by simp
    then show ?thesis using False Cons by (auto simp: set_sort_insert)
  qed
qed

lemma sorted_array_sort:
  assumes total: "\<And>a b. cmp a b \<le> 0 \<or> cmp b a \<le> 0"
    and trans: "\<And>a b c. cmp a b \<le> 0 \<Longrightarrow> cmp b c \<le> 0 \<Longrightarrow> cmp a c \<le> 0"
  shows "sorted_wrt (\<lambda>a b. cmp a b \<le> 0) (array_sort cmp xs)"
  by (induction xs) (simp_all add: sorted_sort_insert[OF total trans])

lemma set_array_sort: "set (array_sort cmp xs) = set xs"
  using mset_array_sort[of cmp xs] by (metis set_mset_mset)

lemma sorted_sort_insert_on:
  assumes total: "\<And>a b. a \<in> A \<Longrightarrow> b \<in> A \<Longrightarrow> cmp a b \<le> 0 \<or> cmp b a \<le> 0"
    and trans: "\<And>a b c. a \<in> A \<Longrightarrow> b \<in> A \<Longrightarrow> c \<in> A \<Longrightarrow> cmp a b \<le> 0 \<Longrightarrow> cmp b c \<le> 0
                  \<Longrightarrow> cmp a c \<le> 0"
  shows "x \<in> A \<Longrightarrow> set xs \<subseteq> A \<Longrightarrow> sorted_wrt (\<lambda>a b. cmp a b \<le> 0) xs
           \<Longrightarrow> sorted_wrt (\<lambda>a b. cmp a b \<le> 0) (sort_insert cmp x xs)"
proof (induction xs)
  case Nil
  then show ?case by simp
next
  case (Cons y ys)
  have y: "y \<in> A" and ys: "set ys \<subseteq> A" using Cons.prems(2) by simp_all
  show ?case
  proof (cases "cmp x y \<le> 0")
    case True
    have "\<forall>z \<in> set ys. cmp x z \<le> 0"
    proof
      fix z assume z: "z \<in> set ys"
      then have "cmp y z \<le> 0" using Cons.prems(3) by simp
      then show "cmp x z \<le> 0" using trans[OF Cons.prems(1) y _ True] z ys by blast
    qed
    then show ?thesis using True Cons.prems(3) by simp
  next
    case False
    then have "cmp y x \<le> 0" using total[OF Cons.prems(1) y] by simp
    moreover have "sorted_wrt (\<lambda>a b. cmp a b \<le> 0) (sort_insert cmp x ys)"
      using Cons.IH[OF Cons.prems(1) ys] Cons.prems(3) by simp
    ultimately show ?thesis using False Cons.prems(3) by (auto simp: set_sort_insert)
  qed
qed

lemma sorted_array_sort_on:
  assumes total: "\<And>a b. a \<in> A \<Longrightarrow> b \<in> A \<Longrightarrow> cmp a b \<le> 0 \<or> cmp b a \<le> 0"
    and trans: "\<And>a b c. a \<in> A \<Longrightarrow> b \<in> A \<Longrightarrow> c \<in> A \<Longrightarrow> cmp a b \<le> 0 \<Longrightarrow> cmp b c \<le> 0
                  \<Longrightarrow> cmp a c \<le> 0"
  shows "set xs \<subseteq> A \<Longrightarrow> sorted_wrt (\<lambda>a b. cmp a b \<le> 0) (array_sort cmp xs)"
proof (induction xs)
  case Nil
  then show ?case by simp
next
  case (Cons x xs)
  have "set (array_sort cmp xs) \<subseteq> A"
    using Cons.prems mset_array_sort[of cmp xs] by (metis set_mset_mset set_subset_Cons subset_trans)
  then show ?case
    using Cons sorted_sort_insert_on[of A cmp x "array_sort cmp xs", OF total trans] by simp
qed



lemma map_of_map_set: "map_of (map_set m k v) = (map_of m)(k \<mapsto> v)"
  by (induction m) (auto simp: fun_eq_iff)

lemma fst_set_map_set: "fst ` set (map_set m k v) = insert k (fst ` set m)"
proof -
  have "fst ` set (map_set m k v) = dom (map_of (map_set m k v))" by (simp add: dom_map_of_conv_image_fst)
  also have "\<dots> = insert k (dom (map_of m))" by (simp add: map_of_map_set)
  finally show ?thesis by (simp add: dom_map_of_conv_image_fst)
qed

lemma distinct_map_set: "distinct (map fst m) \<Longrightarrow> distinct (map fst (map_set m k v))"
  by (induction m) (auto simp: fst_set_map_set)






section \<open>Properties of the dates\<close>

lemma month_cases:
  "0 \<le> m \<Longrightarrow> m < 12 \<Longrightarrow>
     (m::int) = 0 \<or> m = 1 \<or> m = 2 \<or> m = 3 \<or> m = 4 \<or> m = 5 \<or> m = 6 \<or> m = 7 \<or> m = 8 \<or> m = 9
       \<or> m = 10 \<or> m = 11"
  by arith

lemma daysInMonth_bounds: "28 \<le> daysInMonth y m \<and> daysInMonth y m \<le> 31"
  by (simp add: daysInMonth_def)

lemma daysBeforeMonth_Suc:
  assumes "0 \<le> m" "m < 11"
  shows "daysBeforeMonth y (m + 1) = daysBeforeMonth y m + daysInMonth y m"
proof -
  from assms have "m = 0 \<or> m = 1 \<or> m = 2 \<or> m = 3 \<or> m = 4 \<or> m = 5 \<or> m = 6 \<or> m = 7 \<or> m = 8 \<or> m = 9 \<or> m = 10"
    by arith
  then show ?thesis
    by (elim disjE) (simp_all add: daysBeforeMonth_def daysInMonth_def)
qed

lemma step_div:
  fixes a k :: int
  assumes k: "0 < k"
  shows "(a + 1) div k = a div k + (if (a + 1) mod k = 0 then 1 else 0)"
proof -
  define q where "q = a div k"
  define r where "r = a mod k"
  have a: "a = k * q + r" by (simp add: q_def r_def)
  have r: "0 \<le> r" "r < k" using k by (simp_all add: r_def)
  show ?thesis
  proof (cases "r + 1 = k")
    case True
    have e: "a + 1 = k * (q + 1) + 0" using a True by (simp add: algebra_simps)
    have "(a + 1) div k = q + 1" using int_div_pos_eq[OF e] k by simp
    moreover have "(a + 1) mod k = 0" using int_mod_pos_eq[OF e] k by simp
    ultimately show ?thesis by (simp add: q_def)
  next
    case False
    have e: "a + 1 = k * q + (r + 1)" using a by simp
    have b: "0 \<le> r + 1" "r + 1 < k" using r False by simp_all
    have "(a + 1) div k = q" using int_div_pos_eq[OF e b] .
    moreover have "(a + 1) mod k = r + 1" using int_mod_pos_eq[OF e b] .
    ultimately show ?thesis using r by (simp add: q_def)
  qed
qed


lemma m4: "((y::int) - 1969 + 1) mod 4 = 0 \<longleftrightarrow> y mod 4 = 0"
proof -
  have "(y - 1969 + 1) mod 4 = (y + (- 492) * 4) mod 4" by simp
  also have "\<dots> = y mod 4" by (rule mod_mult_self1)
  finally show ?thesis by simp
qed

lemma m100: "((y::int) - 1901 + 1) mod 100 = 0 \<longleftrightarrow> y mod 100 = 0"
proof -
  have "(y - 1901 + 1) mod 100 = (y + (- 19) * 100) mod 100" by simp
  also have "\<dots> = y mod 100" by (rule mod_mult_self1)
  finally show ?thesis by simp
qed

lemma m400: "((y::int) - 1601 + 1) mod 400 = 0 \<longleftrightarrow> y mod 400 = 0"
proof -
  have "(y - 1601 + 1) mod 400 = (y + (- 4) * 400) mod 400" by simp
  also have "\<dots> = y mod 400" by (rule mod_mult_self1)
  finally show ?thesis by simp
qed

lemma m400_100: "(y::int) mod 400 = 0 \<Longrightarrow> y mod 100 = 0"
  using mod_mod_cancel[of 100 400 y] by simp

lemma m100_4: "(y::int) mod 100 = 0 \<Longrightarrow> y mod 4 = 0"
  using mod_mod_cancel[of 4 100 y] by simp

lemma gen: "(p400 \<longrightarrow> p100) \<Longrightarrow> (p100 \<longrightarrow> p4) \<Longrightarrow>
      365 * ((D::int) + 1) + (A + (if p4 then 1 else 0)) - (B + (if p100 then 1 else 0))
          + (C + (if p400 then 1 else 0))
        = 365 * D + A - B + C + (if p4 \<and> (\<not> p100 \<or> p400) then 366 else 365)"
  by (cases p4; cases p100; cases p400) simp_all

lemma da: "((y::int) + 1 - 1969) div 4 = (y - 1969) div 4 + (if y mod 4 = 0 then 1 else 0)"
proof -
  have "(y - 1969 + 1) div 4 = (y - 1969) div 4 + (if (y - 1969 + 1) mod 4 = 0 then 1 else 0)"
    by (rule step_div) simp
  then have "(y - 1969 + 1) div 4 = (y - 1969) div 4 + (if y mod 4 = 0 then 1 else 0)"
    by (simp only: m4)
  moreover have "y + 1 - 1969 = y - 1969 + 1" by simp
  ultimately show ?thesis by (simp only:)
qed

lemma db: "((y::int) + 1 - 1901) div 100 = (y - 1901) div 100 + (if y mod 100 = 0 then 1 else 0)"
proof -
  have "(y - 1901 + 1) div 100 = (y - 1901) div 100 + (if (y - 1901 + 1) mod 100 = 0 then 1 else 0)"
    by (rule step_div) simp
  then have "(y - 1901 + 1) div 100 = (y - 1901) div 100 + (if y mod 100 = 0 then 1 else 0)"
    by (simp only: m100)
  moreover have "y + 1 - 1901 = y - 1901 + 1" by simp
  ultimately show ?thesis by (simp only:)
qed

lemma dc: "((y::int) + 1 - 1601) div 400 = (y - 1601) div 400 + (if y mod 400 = 0 then 1 else 0)"
proof -
  have "(y - 1601 + 1) div 400 = (y - 1601) div 400 + (if (y - 1601 + 1) mod 400 = 0 then 1 else 0)"
    by (rule step_div) simp
  then have "(y - 1601 + 1) div 400 = (y - 1601) div 400 + (if y mod 400 = 0 then 1 else 0)"
    by (simp only: m400)
  moreover have "y + 1 - 1601 = y - 1601 + 1" by simp
  ultimately show ?thesis by (simp only:)
qed

lemma year_length:
  "365 * ((y::int) + 1 - 1970) + (y + 1 - 1969) div 4 - (y + 1 - 1901) div 100 + (y + 1 - 1601) div 400
    = 365 * (y - 1970) + (y - 1969) div 4 - (y - 1901) div 100 + (y - 1601) div 400
       + (if y mod 4 = 0 \<and> (y mod 100 \<noteq> 0 \<or> y mod 400 = 0) then 366 else 365)"
proof -
  have d: "y + 1 - 1970 = y - 1970 + 1" by simp
  have "365 * (y - 1970 + 1) + ((y - 1969) div 4 + (if y mod 4 = 0 then 1 else 0))
          - ((y - 1901) div 100 + (if y mod 100 = 0 then 1 else 0))
          + ((y - 1601) div 400 + (if y mod 400 = 0 then 1 else 0))
    = 365 * (y - 1970) + (y - 1969) div 4 - (y - 1901) div 100 + (y - 1601) div 400
       + (if y mod 4 = 0 \<and> (y mod 100 \<noteq> 0 \<or> y mod 400 = 0) then 366 else 365)"
  proof (rule gen)
    show "y mod 400 = 0 \<longrightarrow> y mod 100 = 0" by (rule impI) (rule m400_100)
    show "y mod 100 = 0 \<longrightarrow> y mod 4 = 0" by (rule impI) (rule m100_4)
  qed
  then show ?thesis by (simp only: da db dc d)
qed


lemma dayFromYear_Suc:
  "dayFromYear (y + 1) = dayFromYear y + (if isLeapYear y then 366 else 365)"
  unfolding dayFromYear_def isLeapYear_def by (rule year_length)

lemma year_end: "dayFromYear (y + 1) = dayFromYear y + daysBeforeMonth y 11 + daysInMonth y 11"
  by (simp add: dayFromYear_Suc daysBeforeMonth_def daysInMonth_def)

lemma year_begin: "daysBeforeMonth y 0 = 0"
  by (simp add: daysBeforeMonth_def)

lemma daysBeforeMonth_eval:
  "daysBeforeMonth y 0 = 0"
  "daysBeforeMonth y 1 = 31"
  "daysBeforeMonth y 2 = 59 + (if isLeapYear y then 1 else 0)"
  "daysBeforeMonth y 3 = 90 + (if isLeapYear y then 1 else 0)"
  "daysBeforeMonth y 4 = 120 + (if isLeapYear y then 1 else 0)"
  "daysBeforeMonth y 5 = 151 + (if isLeapYear y then 1 else 0)"
  "daysBeforeMonth y 6 = 181 + (if isLeapYear y then 1 else 0)"
  "daysBeforeMonth y 7 = 212 + (if isLeapYear y then 1 else 0)"
  "daysBeforeMonth y 8 = 243 + (if isLeapYear y then 1 else 0)"
  "daysBeforeMonth y 9 = 273 + (if isLeapYear y then 1 else 0)"
  "daysBeforeMonth y 10 = 304 + (if isLeapYear y then 1 else 0)"
  "daysBeforeMonth y 11 = 334 + (if isLeapYear y then 1 else 0)"
  by (simp_all add: daysBeforeMonth_def)

lemma normalizeDay_correct:
  "0 \<le> m \<Longrightarrow> m < 12 \<Longrightarrow> normalizeDay y m d = (y', m', d') \<Longrightarrow>
     0 \<le> m' \<and> m' < 12 \<and> 1 \<le> d' \<and> d' \<le> daysInMonth y' m'
     \<and> dayFromYear y' + daysBeforeMonth y' m' + d' = dayFromYear y + daysBeforeMonth y m + d"
proof (induction y m d rule: normalizeDay.induct)
  case (1 y m d)
  show ?case
  proof (cases "d < 1")
    case True
    note lt = this
    show ?thesis
    proof (cases "m = 0")
      case True
      have n: "normalizeDay (y - 1) 11 (d + daysInMonth (y - 1) 11) = (y', m', d')"
        using "1.prems"(3) lt True by (subst (asm) normalizeDay.simps) simp
      have "dayFromYear y = dayFromYear (y - 1) + daysBeforeMonth (y - 1) 11 + daysInMonth (y - 1) 11"
        using year_end[of "y - 1"] by simp
      then show ?thesis using "1.IH"(1)[OF lt True _ _ n] True year_begin[of y] by simp
    next
      case False
      have n: "normalizeDay y (m - 1) (d + daysInMonth y (m - 1)) = (y', m', d')"
        using "1.prems"(3) lt False by (subst (asm) normalizeDay.simps) simp
      have "daysBeforeMonth y m = daysBeforeMonth y (m - 1) + daysInMonth y (m - 1)"
        using daysBeforeMonth_Suc[of "m - 1" y] False "1.prems"(1,2) by simp
      then show ?thesis using "1.IH"(2)[OF lt False _ _ n] False "1.prems"(1,2) by simp
    qed
  next
    case False
    note ge = this
    show ?thesis
    proof (cases "daysInMonth y m < d")
      case True
      note over = this
      show ?thesis
      proof (cases "m = 11")
        case True
        have n: "normalizeDay (y + 1) 0 (d - daysInMonth y m) = (y', m', d')"
          using "1.prems"(3) ge over True by (subst (asm) normalizeDay.simps) simp
        show ?thesis using "1.IH"(3)[OF ge over True _ _ n] True year_end[of y] year_begin[of "y + 1"]
          by simp
      next
        case False
        have n: "normalizeDay y (m + 1) (d - daysInMonth y m) = (y', m', d')"
          using "1.prems"(3) ge over False by (subst (asm) normalizeDay.simps) simp
        show ?thesis using "1.IH"(4)[OF ge over False _ _ n] False "1.prems"(1,2)
            daysBeforeMonth_Suc[of m y] by simp
      qed
    next
      case False
      have "normalizeDay y m d = (y, m, d)"
        using ge False by (subst normalizeDay.simps) simp
      then show ?thesis using "1.prems" ge False by simp
    qed
  qed
qed

lemma normalizeDay_id:
  "1 \<le> d \<Longrightarrow> d \<le> daysInMonth y m \<Longrightarrow> normalizeDay y m d = (y, m, d)"
  by (subst normalizeDay.simps) simp

lemma makeDate_cases:
  obtains "makeDate y m d = InvalidDate"
  | y' m' d' where "makeDate y m d = Civil y' m' d'" "wf_date (Civil y' m' d')"
      "dayFromYear y' + daysBeforeMonth y' m' + d'
         = dayFromYear (y + m div 12) + daysBeforeMonth (y + m div 12) (m mod 12) + d"
proof -
  obtain y' m' d' where n: "normalizeDay (y + m div 12) (m mod 12) d = (y', m', d')"
    by (cases "normalizeDay (y + m div 12) (m mod 12) d") auto
  have m: "0 \<le> m mod 12" "m mod 12 < 12" by simp_all
  note c = normalizeDay_correct[OF m n]
  show ?thesis
  proof (cases "100000000 < \<bar>dayFromYear y' + daysBeforeMonth y' m' + d' - 1\<bar>")
    case True
    then have "makeDate y m d = InvalidDate" by (simp add: makeDate_def n timeClip_def)
    then show ?thesis by (rule that(1))
  next
    case False
    then have e: "makeDate y m d = Civil y' m' d'" by (simp add: makeDate_def n timeClip_def)
    have w: "wf_date (Civil y' m' d')" using c False by simp
    show ?thesis using that(2)[OF e w] c by simp
  qed
qed

lemma wf_makeDate: "wf_date (makeDate y m d)"
  by (rule makeDate_cases[of y m d]) simp_all

lemma wf_newDate: "wf_date (newDate a b c)"
  by (cases a; cases b; cases c) (simp_all add: wf_makeDate)

lemma wf_setDate: "wf_date (setDate dt a)"
  by (cases dt; cases a) (simp_all add: wf_makeDate)

lemma makeDate_wf_id:
  assumes "wf_date (Civil y m d)"
  shows "makeDate y m d = Civil y m d"
proof -
  from assms have m: "m div 12 = 0" "m mod 12 = m" by simp_all
  have "normalizeDay y m d = (y, m, d)" using assms by (simp add: normalizeDay_id)
  then show ?thesis using assms by (simp add: makeDate_def m timeClip_def)
qed

lemma timeValue_makeDate:
  assumes "makeDate y m d \<noteq> InvalidDate" "0 \<le> m" "m < 12"
  shows "timeValue (makeDate y m d) = Some (dayFromYear y + daysBeforeMonth y m + d - 1)"
proof (rule makeDate_cases[of y m d])
  assume "makeDate y m d = InvalidDate"
  then show ?thesis using assms by simp
next
  fix y' m' d'
  assume e: "makeDate y m d = Civil y' m' d'"
    and "dayFromYear y' + daysBeforeMonth y' m' + d'
         = dayFromYear (y + m div 12) + daysBeforeMonth (y + m div 12) (m mod 12) + d"
  moreover have "m div 12 = 0" "m mod 12 = m" using assms(2,3) by simp_all
  ultimately show ?thesis by simp
qed

lemma wf_parseISODate: "wf_date (parseISODate P s)"
  by (simp add: parseISODate_def Let_def wf_newDate)

lemma wf_startOfDay: "wf_date (startOfDay dt)"
  by (simp add: startOfDay_def wf_newDate)

lemma wf_addDays: "wf_date (addDays dt n)"
  by (simp add: addDays_def Let_def wf_setDate)

lemma wf_addMonths: "wf_date (addMonths dt n)"
  by (simp add: addMonths_def Let_def wf_setDate)

lemma wf_addYears: "wf_date (addYears dt n)"
  by (simp add: addYears_def Let_def wf_setDate)

lemma wf_addSemimonthly: "wf_date (addSemimonthly dt)"
  by (simp add: addSemimonthly_def Let_def wf_newDate)

lemma wf_advanceIncomeDate: "wf_date (advanceIncomeDate dt f)"
  by (cases f) (simp_all add: advanceIncomeDate_def wf_addDays wf_addMonths wf_addSemimonthly)

lemma wf_advanceExpenseDate: "wf_date (advanceExpenseDate dt r)"
  by (cases r) (simp_all add: advanceExpenseDate_def wf_addDays wf_addMonths wf_addYears)

lemma startOfDay_id:
  assumes "wf_date (Civil y m d)" "\<not> (0 \<le> y \<and> y \<le> 99)"
  shows "startOfDay (Civil y m d) = Civil y m d"
proof -
  have "startOfDay (Civil y m d) = makeDate y m d"
    using assms(2) by (auto simp: startOfDay_def)
  then show ?thesis using makeDate_wf_id[OF assms(1)] by simp
qed

lemma div_bounds:
  fixes a k :: int
  assumes "0 < k"
  shows "k * (a div k) \<le> a" "a < k * (a div k) + k"
proof -
  have "a = k * (a div k) + a mod k" by simp
  moreover have "0 \<le> a mod k" "a mod k < k" using assms by simp_all
  ultimately show "k * (a div k) \<le> a" "a < k * (a div k) + k" by linarith+
qed

lemma dayFromYear_approx:
  "146097 * (y - 1970) - 506 \<le> 400 * dayFromYear y"
  "400 * dayFromYear y \<le> 146097 * (y - 1970) + 589"
proof -
  define A where "A = (y - 1969) div 4"
  define B where "B = (y - 1901) div 100"
  define C where "C = (y - 1601) div 400"
  have a: "4 * A \<le> y - 1969" "y - 1969 < 4 * A + 4"
    unfolding A_def by (rule div_bounds, simp)+
  have b: "100 * B \<le> y - 1901" "y - 1901 < 100 * B + 100"
    unfolding B_def by (rule div_bounds, simp)+
  have c: "400 * C \<le> y - 1601" "y - 1601 < 400 * C + 400"
    unfolding C_def by (rule div_bounds, simp)+
  have d: "dayFromYear y = 365 * (y - 1970) + A - B + C"
    by (simp add: dayFromYear_def A_def B_def C_def)
  have l: "100 * (y - 1972) \<le> 400 * A" "400 * B \<le> 4 * (y - 1901)" "y - 2000 \<le> 400 * C"
    using a(2) b(1) c(2) by simp_all
  have u: "400 * A \<le> 100 * (y - 1969)" "4 * (y - 2000) \<le> 400 * B" "400 * C \<le> y - 1601"
    using a(1) b(2) c(1) by simp_all
  show "146097 * (y - 1970) - 506 \<le> 400 * dayFromYear y"
    unfolding d using l by (simp add: algebra_simps)
  show "400 * dayFromYear y \<le> 146097 * (y - 1970) + 589"
    unfolding d using u by (simp add: algebra_simps)
qed

lemma daysBeforeMonth_bounds:
  assumes "0 \<le> m" "m < 12"
  shows "0 \<le> daysBeforeMonth y m \<and> daysBeforeMonth y m \<le> 335"
  using month_cases[OF assms]
  by (elim disjE) (simp_all add: daysBeforeMonth_def)

lemma daysBeforeMonth_years:
  assumes "0 \<le> m" "m < 12"
  shows "daysBeforeMonth y m \<le> daysBeforeMonth y' m + 1"
  using month_cases[OF assms]
  by (elim disjE) (simp_all add: daysBeforeMonth_def)

lemma makeDate_valid:
  assumes m: "0 \<le> m" "m < 12"
    and r: "\<bar>dayFromYear y + daysBeforeMonth y m + d - 1\<bar> \<le> 100000000"
  shows "makeDate y m d \<noteq> InvalidDate"
proof -
  obtain y' m' d' where n: "normalizeDay y m d = (y', m', d')"
    by (cases "normalizeDay y m d") auto
  from normalizeDay_correct[OF m n]
  have "dayFromYear y' + daysBeforeMonth y' m' + d' = dayFromYear y + daysBeforeMonth y m + d"
    by simp
  then have "\<not> 100000000 < \<bar>dayFromYear y' + daysBeforeMonth y' m' + d' - 1\<bar>"
    using r by simp
  moreover have "m div 12 = 0" "m mod 12 = m" using m by simp_all
  ultimately show ?thesis by (simp add: makeDate_def n timeClip_def)
qed

lemma dayFromYear_range:
  assumes y: "- 271000 \<le> y" "y \<le> 275500"
  shows "- 99700247 \<le> dayFromYear y" "dayFromYear y \<le> 99904782"
proof -
  note a = dayFromYear_approx[of y]
  have "146097 * (y - 1970) \<le> 146097 * 273530" using y(2) by simp
  then have "400 * dayFromYear y \<le> 39961912999" using a(2) by simp
  then show "dayFromYear y \<le> 99904782" by simp
  have "146097 * (- 272970) \<le> 146097 * (y - 1970)" using y(1) by simp
  then have "- 39880098596 \<le> 400 * dayFromYear y" using a(1) by simp
  then show "- 99700247 \<le> dayFromYear y" by simp
qed

lemma year_range_valid:
  assumes y: "- 271000 \<le> y" "y \<le> 275500" and m: "0 \<le> m" "m < 12" and d: "1 \<le> d" "d \<le> 62"
  shows "\<bar>dayFromYear y + daysBeforeMonth y m + d - 1\<bar> \<le> 100000000"
  using dayFromYear_range[OF y] daysBeforeMonth_bounds[OF m, of y] d by (simp add: abs_le_iff)

lemma year_jump:
  assumes y: "0 \<le> y" "y \<le> 99"
  shows "dayFromYear y + 1 \<le> dayFromYear (1900 + y)"
proof -
  note a = dayFromYear_approx(2)[of y]
  note b = dayFromYear_approx(1)[of "1900 + y"]
  have "146097 * (1900 + y - 1970) = 146097 * (y - 1970) + 277584300" by simp
  then have "400 * dayFromYear y + 400 \<le> 400 * dayFromYear (1900 + y)" using a b by simp
  then show ?thesis by simp
qed

lemma startOfDay_valid:
  assumes w: "wf_date (Civil y m d)"
  shows "\<exists>y' m' d'. startOfDay (Civil y m d) = Civil y' m' d' \<and> wf_date (Civil y' m' d')
           \<and> dayFromYear y + daysBeforeMonth y m + d \<le> dayFromYear y' + daysBeforeMonth y' m' + d'"
proof (cases "0 \<le> y \<and> y \<le> 99")
  case False
  then show ?thesis using startOfDay_id[OF w] w by auto
next
  case True
  then have s: "startOfDay (Civil y m d) = makeDate (1900 + y) m d"
    by (simp add: startOfDay_def)
  from w have m: "0 \<le> m" "m < 12" and d: "1 \<le> d" "d \<le> 62"
    using daysInMonth_bounds[of y m] by auto
  have r: "\<bar>dayFromYear (1900 + y) + daysBeforeMonth (1900 + y) m + d - 1\<bar> \<le> 100000000"
    by (rule year_range_valid) (use True m d in auto)
  have v: "makeDate (1900 + y) m d \<noteq> InvalidDate" by (rule makeDate_valid[OF m r])
  show ?thesis
  proof (rule makeDate_cases[of "1900 + y" m d])
    assume "makeDate (1900 + y) m d = InvalidDate"
    then show ?thesis using v by simp
  next
    fix y' m' d'
    assume e: "makeDate (1900 + y) m d = Civil y' m' d'" and w': "wf_date (Civil y' m' d')"
      and n: "dayFromYear y' + daysBeforeMonth y' m' + d'
         = dayFromYear (1900 + y + m div 12) + daysBeforeMonth (1900 + y + m div 12) (m mod 12) + d"
    have md: "m div 12 = 0" "m mod 12 = m" using m by simp_all
    have "dayFromYear y + daysBeforeMonth y m \<le> dayFromYear (1900 + y) + daysBeforeMonth (1900 + y) m"
      using year_jump[of y] True daysBeforeMonth_years[OF m, of y "1900 + y"] by simp
    then have "dayFromYear y + daysBeforeMonth y m + d \<le> dayFromYear y' + daysBeforeMonth y' m' + d'"
      using n by (simp add: md)
    then show ?thesis using s e w' by simp
  qed
qed

lemma toISODate_valid:
  assumes "wf_date (Civil y m d)"
  shows "\<exists>s. toISODate (Civil y m d) = Inr s"
proof -
  from startOfDay_valid[OF assms] obtain y' m' d' where "startOfDay (Civil y m d) = Civil y' m' d'"
    by blast
  then show ?thesis by (simp add: toISODate_def)
qed

lemma addDays_Invalid [simp]: "addDays InvalidDate n = InvalidDate"
  by (simp add: addDays_def startOfDay_def plusOpt_def)

lemma addDays_advances:
  assumes w: "wf_date (Civil y m d)" and n: "0 \<le> n"
  shows "addDays (Civil y m d) n = InvalidDate
         \<or> (\<exists>t. timeValue (addDays (Civil y m d) n) = Some t
                \<and> dayFromYear y + daysBeforeMonth y m + d - 1 + n \<le> t)"
proof -
  from startOfDay_valid[OF w] obtain y' m' d' where
    s: "startOfDay (Civil y m d) = Civil y' m' d'" and w': "wf_date (Civil y' m' d')"
    and le: "dayFromYear y + daysBeforeMonth y m + d \<le> dayFromYear y' + daysBeforeMonth y' m' + d'"
    by blast
  have a: "addDays (Civil y m d) n = makeDate y' m' (d' + n)"
    by (simp add: addDays_def s plusOpt_def)
  from w' have m': "0 \<le> m'" "m' < 12" by simp_all
  show ?thesis
  proof (cases "makeDate y' m' (d' + n) = InvalidDate")
    case True
    then show ?thesis by (simp add: a)
  next
    case False
    from timeValue_makeDate[OF False m']
    have "timeValue (addDays (Civil y m d) n) = Some (dayFromYear y' + daysBeforeMonth y' m' + (d' + n) - 1)"
      by (simp add: a)
    then show ?thesis using le by auto
  qed
qed

section \<open>Properties of the forecast builder\<close>

lemma linearOn_le0:
  "linearOn lc S \<Longrightarrow> a \<in> S \<Longrightarrow> b \<in> S \<Longrightarrow> (lc a b \<le> 0) = (lc a b < 0 \<or> a = b)"
  unfolding linearOn_def by (metis less_le order.refl)

lemma linearOn_total:
  "linearOn lc S \<Longrightarrow> a \<in> S \<Longrightarrow> b \<in> S \<Longrightarrow> a \<noteq> b \<Longrightarrow> lc a b < 0 \<or> lc b a < 0"
  unfolding linearOn_def by (metis linorder_neqE_linordered_idom)

lemma linearOn_trans:
  "linearOn lc S \<Longrightarrow> a \<in> S \<Longrightarrow> b \<in> S \<Longrightarrow> c \<in> S \<Longrightarrow> lc a b < 0 \<Longrightarrow> lc b c < 0
     \<Longrightarrow> lc a c < 0"
  unfolding linearOn_def by blast

lemma linearOn_irrefl: "linearOn lc S \<Longrightarrow> a \<in> S \<Longrightarrow> \<not> lc a a < 0"
  unfolding linearOn_def by (metis less_irrefl)

lemma lin_le0:
  "linearOn lc (f ` E) \<Longrightarrow> a \<in> E \<Longrightarrow> b \<in> E
     \<Longrightarrow> (lc (f a) (f b) \<le> 0) = (lc (f a) (f b) < 0 \<or> f a = f b)"
  by (rule linearOn_le0[where S = "f ` E"]) auto

lemma lin_total:
  "linearOn lc (f ` E) \<Longrightarrow> a \<in> E \<Longrightarrow> b \<in> E \<Longrightarrow> f a \<noteq> f b
     \<Longrightarrow> lc (f a) (f b) < 0 \<or> lc (f b) (f a) < 0"
  by (rule linearOn_total[where S = "f ` E"]) auto

lemma lin_trans:
  "linearOn lc (f ` E) \<Longrightarrow> a \<in> E \<Longrightarrow> b \<in> E \<Longrightarrow> c \<in> E
     \<Longrightarrow> lc (f a) (f b) < 0 \<Longrightarrow> lc (f b) (f c) < 0 \<Longrightarrow> lc (f a) (f c) < 0"
  by (rule linearOn_trans[where S = "f ` E" and b = "f b"]) auto

lemma lin_irrefl: "linearOn lc (f ` E) \<Longrightarrow> a \<in> E \<Longrightarrow> \<not> lc (f a) (f a) < 0"
  by (rule linearOn_irrefl[where S = "f ` E"]) auto

lemma compareEvents_before:
  fixes a b :: "'a forecast_event_scheme"
  assumes d: "linearOn (localeCompare P) (date ` E)"
    and c: "linearOn (localeCompare P) (category ` E)"
    and a: "a \<in> E" and b: "b \<in> E"
  shows "(compareEvents P a b \<le> 0) = collation_before (localeCompare P) a b"
proof (cases "date a = date b")
  case False
  then show ?thesis
    using lin_le0[OF d a b] by (simp add: compareEvents_def collation_before_def)
next
  case True
  have irr: "\<not> localeCompare P (date b) (date b) < 0" by (rule lin_irrefl[OF d b])
  show ?thesis
  proof (cases "event_type a"; cases "event_type b")
    assume "event_type a = Income" "event_type b = Income"
    then show ?thesis using True irr by (simp add: compareEvents_def collation_before_def)
  next
    assume "event_type a = Income" "event_type b = Expense"
    then show ?thesis using True irr by (simp add: compareEvents_def collation_before_def)
  next
    assume "event_type a = Expense" "event_type b = Income"
    then show ?thesis using True irr by (simp add: compareEvents_def collation_before_def)
  next
    assume t: "event_type a = Expense" "event_type b = Expense"
    show ?thesis
    proof (cases "category a = category b")
      case True
      have "\<not> localeCompare P (category b) (category b) < 0"
        by (rule lin_irrefl[OF c b])
      then show ?thesis using True t \<open>date a = date b\<close> irr
        by (simp add: compareEvents_def collation_before_def)
    next
      case False
      have "(localeCompare P (category a) (category b) \<le> 0)
              = (localeCompare P (category a) (category b) < 0 \<or> category a = category b)"
        by (rule lin_le0[OF c a b])
      then show ?thesis using False t \<open>date a = date b\<close> irr
        by (simp add: compareEvents_def collation_before_def)
    qed
  qed
qed

lemma collation_before_total:
  fixes a b :: "'a forecast_event_scheme"
  assumes d: "linearOn lc (date ` E)" and c: "linearOn lc (category ` E)"
    and i: "linearOn lc (item ` E)" and a: "a \<in> E" and b: "b \<in> E"
  shows "collation_before lc a b \<or> collation_before lc b a"
proof (cases "date a = date b")
  case False
  then have "lc (date a) (date b) < 0 \<or> lc (date b) (date a) < 0"
    by (rule lin_total[OF d a b])
  then show ?thesis by (auto simp: collation_before_def)
next
  case True
  note dd = this
  show ?thesis
  proof (cases "event_type a = event_type b")
    case False
    then show ?thesis using dd
      by (cases "event_type a"; cases "event_type b") (auto simp: collation_before_def)
  next
    case True
    note t = this
    have it: "lc (item a) (item b) \<le> 0 \<or> lc (item b) (item a) \<le> 0"
    proof (cases "item a = item b")
      case True
      have "(lc (item b) (item b) \<le> 0) = (lc (item b) (item b) < 0 \<or> item b = item b)"
        by (rule lin_le0[OF i b b])
      then show ?thesis using True by simp
    next
      case False
      then have "lc (item a) (item b) < 0 \<or> lc (item b) (item a) < 0"
        by (rule lin_total[OF i a b])
      then show ?thesis by auto
    qed
    show ?thesis
    proof (cases "category a = category b")
      case True
      then show ?thesis using dd t it by (auto simp: collation_before_def)
    next
      case False
      then have "lc (category a) (category b) < 0 \<or> lc (category b) (category a) < 0"
        by (rule lin_total[OF c a b])
      then show ?thesis using dd t it
        by (cases "event_type a"; cases "event_type b") (auto simp: collation_before_def)
    qed
  qed
qed

lemma collation_before_trans:
  fixes a b c :: "'a forecast_event_scheme"
  assumes d: "linearOn lc (date ` E)" and cg: "linearOn lc (category ` E)"
    and i: "linearOn lc (item ` E)" and a: "a \<in> E" and b: "b \<in> E" and c: "c \<in> E"
    and ab: "collation_before lc a b" and bc: "collation_before lc b c"
  shows "collation_before lc a c"
proof -
  have trd: "lc (date a) (date b) < 0 \<Longrightarrow> lc (date b) (date c) < 0 \<Longrightarrow> lc (date a) (date c) < 0"
    by (rule lin_trans[OF d a b c])
  have trc: "lc (category a) (category b) < 0 \<Longrightarrow> lc (category b) (category c) < 0
               \<Longrightarrow> lc (category a) (category c) < 0"
    by (rule lin_trans[OF cg a b c])
  have tri: "lc (item a) (item b) < 0 \<Longrightarrow> lc (item b) (item c) < 0 \<Longrightarrow> lc (item a) (item c) < 0"
    by (rule lin_trans[OF i a b c])
  have irrd: "\<not> lc (date b) (date b) < 0" "\<not> lc (date c) (date c) < 0"
    by (rule lin_irrefl[OF d b], rule lin_irrefl[OF d c])
  have irrc: "\<not> lc (category b) (category b) < 0" "\<not> lc (category c) (category c) < 0"
    by (rule lin_irrefl[OF cg b], rule lin_irrefl[OF cg c])
  have lei: "(lc (item a) (item b) \<le> 0) = (lc (item a) (item b) < 0 \<or> item a = item b)"
    "(lc (item b) (item c) \<le> 0) = (lc (item b) (item c) < 0 \<or> item b = item c)"
    "(lc (item a) (item c) \<le> 0) = (lc (item a) (item c) < 0 \<or> item a = item c)"
    by (rule lin_le0[OF i a b], rule lin_le0[OF i b c], rule lin_le0[OF i a c])
  consider (lt1) "lc (date a) (date b) < 0" | (eq1) "date a = date b"
    using ab by (auto simp: collation_before_def)
  then show ?thesis
  proof cases
    case lt1
    consider "lc (date b) (date c) < 0" | "date b = date c"
      using bc by (auto simp: collation_before_def)
    then show ?thesis using lt1 trd by cases (auto simp: collation_before_def)
  next
    case eq1
    consider (lt2) "lc (date b) (date c) < 0" | (eq2) "date b = date c"
      using bc by (auto simp: collation_before_def)
    then show ?thesis
    proof cases
      case lt2
      then show ?thesis using eq1 by (auto simp: collation_before_def)
    next
      case eq2
      from ab eq1 irrd(1) have ab': "(event_type a = Income \<and> event_type b = Expense)
          \<or> (event_type a = Expense \<and> event_type b = Expense \<and> lc (category a) (category b) < 0)
          \<or> (event_type a = event_type b \<and> (event_type a = Income \<or> category a = category b)
               \<and> (lc (item a) (item b) < 0 \<or> item a = item b))"
        by (auto simp: collation_before_def lei)
      from bc eq2 irrd(2) have bc': "(event_type b = Income \<and> event_type c = Expense)
          \<or> (event_type b = Expense \<and> event_type c = Expense \<and> lc (category b) (category c) < 0)
          \<or> (event_type b = event_type c \<and> (event_type b = Income \<or> category b = category c)
               \<and> (lc (item b) (item c) < 0 \<or> item b = item c))"
        by (auto simp: collation_before_def lei)
      have "(event_type a = Income \<and> event_type c = Expense)
          \<or> (event_type a = Expense \<and> event_type c = Expense \<and> lc (category a) (category c) < 0)
          \<or> (event_type a = event_type c \<and> (event_type a = Income \<or> category a = category c)
               \<and> (lc (item a) (item c) < 0 \<or> item a = item c))"
        using ab' bc' trc tri
        by (cases "event_type a"; cases "event_type b"; cases "event_type c") auto
      then show ?thesis using eq1 eq2 by (auto simp: collation_before_def lei)
    qed
  qed
qed

lemma lexicographicOn_linearOn:
  assumes "lexicographicOn lc S"
  shows "linearOn lc S"
  unfolding linearOn_def
proof (intro ballI conjI impI)
  fix a b assume a: "a \<in> S" and b: "b \<in> S"
  have ab: "(lc a b < 0) = (a < b)" "(lc a b = 0) = (a = b)"
    and ba: "(lc b a < 0) = (b < a)" "(lc b a = 0) = (b = a)"
    using assms a b unfolding lexicographicOn_def by blast+
  show "(lc a b = 0) = (a = b)" by (rule ab(2))
  have "(0 < lc b a) = (\<not> lc b a < 0 \<and> lc b a \<noteq> 0)" by auto
  also have "\<dots> = (a < b)" unfolding ba by auto
  finally show "(lc a b < 0) = (0 < lc b a)" using ab(1) by simp
  fix c assume c: "c \<in> S" and h: "lc a b < 0 \<and> lc b c < 0"
  have bc: "(lc b c < 0) = (b < c)" and ac: "(lc a c < 0) = (a < c)"
    using assms a b c unfolding lexicographicOn_def by blast+
  from h have "a < b" "b < c" using ab(1) bc by simp_all
  then have "a < c" by (rule less_trans)
  then show "lc a c < 0" using ac by simp
qed

lemma collation_before_lexicographic:
  fixes a b :: "'a forecast_event_scheme"
  assumes d: "lexicographicOn lc (date ` E)" and c: "lexicographicOn lc (category ` E)"
    and i: "lexicographicOn lc (item ` E)" and a: "a \<in> E" and b: "b \<in> E"
  shows "collation_before lc a b = spec_before a b"
proof -
  have da: "date a \<in> date ` E" and db: "date b \<in> date ` E"
    and ca: "category a \<in> category ` E" and cb: "category b \<in> category ` E"
    and ia: "item a \<in> item ` E" and ib: "item b \<in> item ` E"
    using a b by auto
  have 1: "(lc (date a) (date b) < 0) = (date a < date b)"
    using d da db unfolding lexicographicOn_def by blast
  have 2: "(lc (category a) (category b) < 0) = (category a < category b)"
    using c ca cb unfolding lexicographicOn_def by blast
  have 3: "(lc (item a) (item b) < 0) = (item a < item b)"
    "(lc (item a) (item b) = 0) = (item a = item b)"
    using i ia ib unfolding lexicographicOn_def by blast+
  have "(lc (item a) (item b) \<le> 0) = (lc (item a) (item b) < 0 \<or> lc (item a) (item b) = 0)"
    by auto
  also have "\<dots> = (item a \<le> item b)" unfolding 3 by auto
  finally have 4: "(lc (item a) (item b) \<le> 0) = (item a \<le> item b)" .
  show ?thesis unfolding collation_before_def spec_before_def 1 2 4 by (rule refl)
qed

lemma lexicographicOn_codeUnitCompare: "lexicographicOn codeUnitCompare S"
  unfolding lexicographicOn_def codeUnitCompare_def by auto

lemma spec_before_codeUnitCompare:
  fixes a b :: "'a forecast_event_scheme"
  shows "spec_before a b = collation_before codeUnitCompare a b"
  using collation_before_lexicographic[of codeUnitCompare UNIV a b]
  by (simp add: lexicographicOn_codeUnitCompare)

lemma spec_before_total:
  fixes a b :: "'a forecast_event_scheme"
  shows "spec_before a b \<or> spec_before b a"
  unfolding spec_before_codeUnitCompare
  by (rule collation_before_total[where E = UNIV])
     (simp_all add: lexicographicOn_linearOn lexicographicOn_codeUnitCompare)

lemma spec_before_trans:
  fixes a b c :: "'a forecast_event_scheme"
  shows "spec_before a b \<Longrightarrow> spec_before b c \<Longrightarrow> spec_before a c"
  unfolding spec_before_codeUnitCompare
  by (rule collation_before_trans[where E = UNIV and b = b])
     (simp_all add: lexicographicOn_linearOn lexicographicOn_codeUnitCompare)

lemma truncate_withBalance: "forecast_event.truncate (withBalance e rb) = e"
  by (simp add: withBalance_def forecast_event.truncate_def)

lemma map_truncate_mapRunning: "map forecast_event.truncate (mapRunning rb es) = es"
  by (induction es arbitrary: rb) (simp_all add: truncate_withBalance)

lemma length_mapRunning: "length (mapRunning rb es) = length es"
  by (induction es arbitrary: rb) simp_all



lemma collation_before_truncate:
  "collation_before lc (forecast_event.truncate a) (forecast_event.truncate b)
     = collation_before lc a b"
  by (simp add: collation_before_def forecast_event.truncate_def)

lemma spec_before_truncate:
  "spec_before (forecast_event.truncate a) (forecast_event.truncate b) = spec_before a b"
  by (simp add: spec_before_def forecast_event.truncate_def)

lemma sorted_rows_collation:
  "sorted_wrt (collation_before lc) (mapRunning rb es) = sorted_wrt (collation_before lc) es"
proof -
  have "sorted_wrt (collation_before lc) es
          = sorted_wrt (collation_before lc) (map forecast_event.truncate (mapRunning rb es))"
    by (simp add: map_truncate_mapRunning)
  also have "\<dots> = sorted_wrt (collation_before lc) (mapRunning rb es)"
    by (simp add: sorted_wrt_map collation_before_truncate)
  finally show ?thesis by simp
qed

lemma sorted_rows_spec:
  "sorted_wrt spec_before (mapRunning rb es) = sorted_wrt spec_before es"
proof -
  have "sorted_wrt spec_before es
          = sorted_wrt spec_before (map forecast_event.truncate (mapRunning rb es))"
    by (simp add: map_truncate_mapRunning)
  also have "\<dots> = sorted_wrt spec_before (mapRunning rb es)"
    by (simp add: sorted_wrt_map spec_before_truncate)
  finally show ?thesis by simp
qed

lemma post_withBalance: "post rb (withBalance e r) = post rb e"
  by (simp add: post_def withBalance_def)

lemma foldl_post_mapRunning:
  "foldl post s (take n (mapRunning rb es)) = foldl post s (take n es)"
proof (induction es arbitrary: s rb n)
  case Nil
  then show ?case by simp
next
  case (Cons e es)
  then show ?case by (cases n) (simp_all add: post_withBalance)
qed

lemma runningBalance_mapRunning:
  "i < length es \<Longrightarrow> runningBalance (mapRunning rb es ! i) = foldl post rb (take (Suc i) es)"
proof (induction es arbitrary: rb i)
  case Nil
  then show ?case by simp
next
  case (Cons e es)
  then show ?case by (cases i) (simp_all add: withBalance_def)
qed


lemma sorted_events_collation:
  fixes es :: "forecast_event list"
  assumes d: "linearOn (localeCompare P) (date ` set es)"
    and c: "linearOn (localeCompare P) (category ` set es)"
    and i: "linearOn (localeCompare P) (item ` set es)"
  shows "sorted_wrt (collation_before (localeCompare P)) (array_sort (compareEvents P) es)"
proof -
  have "sorted_wrt (\<lambda>a b. compareEvents P a b \<le> 0) (array_sort (compareEvents P) es)"
  proof (rule sorted_array_sort_on[where A = "set es"])
    fix a b :: forecast_event
    assume a: "a \<in> set es" and b: "b \<in> set es"
    show "compareEvents P a b \<le> 0 \<or> compareEvents P b a \<le> 0"
      unfolding compareEvents_before[OF d c a b] compareEvents_before[OF d c b a]
      by (rule collation_before_total[OF d c i a b])
  next
    fix a b x :: forecast_event
    assume a: "a \<in> set es" and b: "b \<in> set es" and x: "x \<in> set es"
      and ab: "compareEvents P a b \<le> 0" and bx: "compareEvents P b x \<le> 0"
    show "compareEvents P a x \<le> 0"
      using ab bx
      unfolding compareEvents_before[OF d c a b] compareEvents_before[OF d c b x]
        compareEvents_before[OF d c a x]
      by (rule collation_before_trans[OF d c i a b x])
  next
    show "set es \<subseteq> set es" by simp
  qed
  then show ?thesis
  proof (rule sorted_wrt_mono_rel[rotated])
    fix a b :: forecast_event
    assume "a \<in> set (array_sort (compareEvents P) es)" "b \<in> set (array_sort (compareEvents P) es)"
    then have a: "a \<in> set es" and b: "b \<in> set es" by (simp_all add: set_array_sort)
    assume "compareEvents P a b \<le> 0"
    then show "collation_before (localeCompare P) a b"
      by (simp only: compareEvents_before[OF d c a b])
  qed
qed

lemma sorted_events_spec:
  fixes es :: "forecast_event list"
  assumes d: "lexicographicOn (localeCompare P) (date ` set es)"
    and c: "lexicographicOn (localeCompare P) (category ` set es)"
    and i: "lexicographicOn (localeCompare P) (item ` set es)"
  shows "sorted_wrt spec_before (array_sort (compareEvents P) es)"
proof -
  have "sorted_wrt (collation_before (localeCompare P)) (array_sort (compareEvents P) es)"
    by (rule sorted_events_collation) (simp_all add: lexicographicOn_linearOn d c i)
  then show ?thesis
  proof (rule sorted_wrt_mono_rel[rotated])
    fix a b :: forecast_event
    assume "a \<in> set (array_sort (compareEvents P) es)" "b \<in> set (array_sort (compareEvents P) es)"
    then have a: "a \<in> set es" and b: "b \<in> set es" by (simp_all add: set_array_sort)
    assume "collation_before (localeCompare P) a b"
    then show "spec_before a b"
      by (simp only: collation_before_lexicographic[OF d c i a b])
  qed
qed

lemma same_day_pair:
  assumes "event_type inc = Income" "event_type bill = Expense" "date inc = date bill"
  shows "array_sort (compareEvents P) [bill, inc] = [inc, bill]"
    and "array_sort (compareEvents P) [inc, bill] = [inc, bill]"
  using assms by (simp_all add: compareEvents_def)



text \<open>
  C1, as amended. For every event list and starting balance, the rows of \<open>buildForecast\<close>
  are the input events (a permutation of them), each with a running balance. They are
  sorted by date, then income before expense, then category among expenses, then item,
  where earlier and later are read off the host's \<^verbatim>\<open>localeCompare\<close>, whenever that
  compares the dates, the categories and the items of the events each as a linear order
  does. When on those strings its sign is that of the lexicographic order, the rows are
  sorted by the order of the specification, which is total and transitive. The balance of
  each row is the left fold from the starting balance over the rows up to and including
  it, adding income and subtracting expense; and one income and one expense event on the
  same date come out income first, the income posted before the expense, whichever way
  round they went in.
\<close>

theorem buildForecast_spec:
  "let rows = buildForecast P events sb;
       lc = localeCompare P;
       dates = date ` set events;
       categories = category ` set events;
       items = item ` set events
   in mset (map forecast_event.truncate rows) = mset events
    \<and> (linearOn lc dates \<and> linearOn lc categories \<and> linearOn lc items
          \<longrightarrow> sorted_wrt (collation_before lc) rows)
    \<and> (lexicographicOn lc dates \<and> lexicographicOn lc categories \<and> lexicographicOn lc items
          \<longrightarrow> sorted_wrt spec_before rows)
    \<and> (\<forall>(a :: forecast_row) (b :: forecast_row). spec_before a b \<or> spec_before b a)
    \<and> (\<forall>(a :: forecast_row) (b :: forecast_row) (c :: forecast_row).
          spec_before a b \<and> spec_before b c \<longrightarrow> spec_before a c)
    \<and> (\<forall>i < length rows.
          runningBalance (rows ! i)
            = foldl (\<lambda>rb e. n_add rb (if event_type e = Income then amount e else n_neg (amount e)))
                sb (take (Suc i) rows))
    \<and> (\<forall>inc bill. event_type inc = Income \<and> event_type bill = Expense \<and> date inc = date bill
          \<and> (events = [inc, bill] \<or> events = [bill, inc])
          \<longrightarrow> rows = [withBalance inc (n_add sb (amount inc)),
                      withBalance bill (n_add (n_add sb (amount inc)) (n_neg (amount bill)))])"
proof -
  let ?sorted = "array_sort (compareEvents P) events"
  let ?rows = "buildForecast P events sb"
  let ?lc = "localeCompare P"
  have rows: "?rows = mapRunning sb ?sorted" by (simp add: buildForecast_def)
  have perm: "mset (map forecast_event.truncate ?rows) = mset events"
    by (simp add: rows map_truncate_mapRunning mset_array_sort)
  have srt: "linearOn ?lc (date ` set events) \<and> linearOn ?lc (category ` set events)
               \<and> linearOn ?lc (item ` set events)
          \<longrightarrow> sorted_wrt (collation_before ?lc) ?rows"
    using sorted_events_collation[of P events] by (simp only: rows sorted_rows_collation) blast
  have lex: "lexicographicOn ?lc (date ` set events) \<and> lexicographicOn ?lc (category ` set events)
               \<and> lexicographicOn ?lc (item ` set events)
          \<longrightarrow> sorted_wrt spec_before ?rows"
    using sorted_events_spec[of P events] by (simp only: rows sorted_rows_spec) blast
  have tot: "\<forall>(a :: forecast_row) (b :: forecast_row). spec_before a b \<or> spec_before b a"
    by (intro allI) (rule spec_before_total)
  have tra: "\<forall>(a :: forecast_row) (b :: forecast_row) (c :: forecast_row).
          spec_before a b \<and> spec_before b c \<longrightarrow> spec_before a c"
    by (intro allI impI, elim conjE) (rule spec_before_trans)
  have post_eq: "post = (\<lambda>rb (e :: forecast_row). n_add rb (if event_type e = Income then amount e else n_neg (amount e)))"
    by (intro ext) (simp add: post_def)
  have bal: "\<forall>i < length ?rows.
          runningBalance (?rows ! i)
            = foldl (\<lambda>rb e. n_add rb (if event_type e = Income then amount e else n_neg (amount e)))
                sb (take (Suc i) ?rows)"
  proof (intro allI impI)
    fix i assume "i < length ?rows"
    then have i: "i < length ?sorted" by (simp add: rows length_mapRunning)
    have "runningBalance (?rows ! i) = foldl post sb (take (Suc i) ?sorted)"
      using runningBalance_mapRunning[OF i] by (simp add: rows)
    also have "\<dots> = foldl post sb (take (Suc i) ?rows)"
      by (simp only: rows foldl_post_mapRunning)
    finally show "runningBalance (?rows ! i)
            = foldl (\<lambda>rb e. n_add rb (if event_type e = Income then amount e else n_neg (amount e)))
                sb (take (Suc i) ?rows)"
      by (simp only: post_eq)
  qed
  have pair: "\<forall>inc bill. event_type inc = Income \<and> event_type bill = Expense \<and> date inc = date bill
          \<and> (events = [inc, bill] \<or> events = [bill, inc])
          \<longrightarrow> ?rows = [withBalance inc (n_add sb (amount inc)),
                      withBalance bill (n_add (n_add sb (amount inc)) (n_neg (amount bill)))]"
  proof (intro allI impI)
    fix inc bill
    assume h: "event_type inc = Income \<and> event_type bill = Expense \<and> date inc = date bill
          \<and> (events = [inc, bill] \<or> events = [bill, inc])"
    then have "?sorted = [inc, bill]" using same_day_pair[of inc bill P] by auto
    then show "?rows = [withBalance inc (n_add sb (amount inc)),
                      withBalance bill (n_add (n_add sb (amount inc)) (n_neg (amount bill)))]"
      using h by (simp add: rows post_def)
  qed
  show ?thesis unfolding Let_def
    by (intro conjI) (rule perm, rule srt, rule lex, rule tot, rule tra, rule bal, rule pair)
qed

text \<open>
  A paycheck of 1000 and a rent of 800 on 2024-03-01, rent first in the input, from a
  balance of 100, on the host with the locale's kind of collation: that collation orders
  the strings of the two events as the lexicographic order does; the paycheck comes first
  (balance 1100), then the rent (balance 300), and the rows are in the order of the
  specification.
\<close>

theorem buildForecast_spec_witness:
  "lexicographicOn (localeCompare alphabetHost) (date ` set [rentEvent, paycheckEvent])
   \<and> lexicographicOn (localeCompare alphabetHost) (category ` set [rentEvent, paycheckEvent])
   \<and> lexicographicOn (localeCompare alphabetHost) (item ` set [rentEvent, paycheckEvent])
   \<and> linearOn (localeCompare alphabetHost) (date ` set [rentEvent, paycheckEvent])
   \<and> linearOn (localeCompare alphabetHost) (category ` set [rentEvent, paycheckEvent])
   \<and> linearOn (localeCompare alphabetHost) (item ` set [rentEvent, paycheckEvent])
   \<and> event_type paycheckEvent = Income \<and> event_type rentEvent = Expense
   \<and> date paycheckEvent = date rentEvent
   \<and> (0::nat) < length (buildForecast alphabetHost [rentEvent, paycheckEvent] (Fin 100))
   \<and> buildForecast alphabetHost [rentEvent, paycheckEvent] (Fin 100)
       = [withBalance paycheckEvent (Fin 1100), withBalance rentEvent (Fin 300)]
   \<and> sorted_wrt spec_before (buildForecast alphabetHost [rentEvent, paycheckEvent] (Fin 100))
   \<and> sorted_wrt (collation_before (localeCompare alphabetHost))
         (buildForecast alphabetHost [rentEvent, paycheckEvent] (Fin 100))"
proof -
  have x: "lexicographicOn (localeCompare alphabetHost) (date ` set [rentEvent, paycheckEvent])"
    "lexicographicOn (localeCompare alphabetHost) (category ` set [rentEvent, paycheckEvent])"
    "lexicographicOn (localeCompare alphabetHost) (item ` set [rentEvent, paycheckEvent])"
    by (simp_all add: lexicographicOn_def alphabetHost_def alphabetCompare_def caseFolded_def
        paycheckEvent_def rentEvent_def)
  have l: "linearOn (localeCompare alphabetHost) (date ` set [rentEvent, paycheckEvent])"
    "linearOn (localeCompare alphabetHost) (category ` set [rentEvent, paycheckEvent])"
    "linearOn (localeCompare alphabetHost) (item ` set [rentEvent, paycheckEvent])"
    by (simp_all add: linearOn_def alphabetHost_def alphabetCompare_def caseFolded_def
        paycheckEvent_def rentEvent_def)
  have t: "event_type paycheckEvent = Income" "event_type rentEvent = Expense"
    "date paycheckEvent = date rentEvent"
    by (simp_all add: paycheckEvent_def rentEvent_def)
  have a: "n_add (Fin 100) (amount paycheckEvent) = Fin 1100"
    "n_add (Fin 1100) (n_neg (amount rentEvent)) = Fin 300"
    by (simp_all add: paycheckEvent_def rentEvent_def)
  note spec = buildForecast_spec [of alphabetHost "[rentEvent, paycheckEvent]" "Fin 100", unfolded Let_def]
  from spec x have s: "sorted_wrt spec_before
         (buildForecast alphabetHost [rentEvent, paycheckEvent] (Fin 100))"
    by blast
  from spec l have s': "sorted_wrt (collation_before (localeCompare alphabetHost))
         (buildForecast alphabetHost [rentEvent, paycheckEvent] (Fin 100))"
    by blast
  from spec t have "buildForecast alphabetHost [rentEvent, paycheckEvent] (Fin 100)
       = [withBalance paycheckEvent (n_add (Fin 100) (amount paycheckEvent)),
          withBalance rentEvent
            (n_add (n_add (Fin 100) (amount paycheckEvent)) (n_neg (amount rentEvent)))]"
    by blast
  then have "buildForecast alphabetHost [rentEvent, paycheckEvent] (Fin 100)
       = [withBalance paycheckEvent (Fin 1100), withBalance rentEvent (Fin 300)]"
    by (simp only: a)
  note r = this
  have n: "(0::nat) < length (buildForecast alphabetHost [rentEvent, paycheckEvent] (Fin 100))"
    by (simp only: r) simp
  show ?thesis using x l t n r s s' by blast
qed

text \<open>
  C1 as stated fails when the host's collation is not the lexicographic order. On the host
  with the locale's kind of collation, two expenses of one category on one date, for
  \<^verbatim>\<open>'Banana'\<close> and for \<^verbatim>\<open>'apple'\<close>, from a balance of 10: the apples come first
  (balance 7), then the bananas (balance 5), although \<^verbatim>\<open>'Banana'\<close> is lexicographically
  before \<^verbatim>\<open>'apple'\<close>; the rows are not in the order of the specification.
\<close>

theorem buildForecast_counterexample:
  "buildForecast alphabetHost [bananaEvent, appleEvent] (Fin 10)
     = [withBalance appleEvent (Fin 7), withBalance bananaEvent (Fin 5)]
   \<and> item bananaEvent < item appleEvent
   \<and> \<not> spec_before (withBalance appleEvent (Fin 7)) (withBalance bananaEvent (Fin 5))
   \<and> \<not> sorted_wrt spec_before (buildForecast alphabetHost [bananaEvent, appleEvent] (Fin 10))"
  by (simp add: buildForecast_def compareEvents_def alphabetHost_def alphabetCompare_def
      caseFolded_def bananaEvent_def appleEvent_def post_def withBalance_def spec_before_def)

section \<open>Properties of the event generators\<close>

lemma date_ge_valid: "date_ge a b \<Longrightarrow> \<exists>y m d. a = Civil y m d"
  by (cases a) (simp_all add: date_ge_def)

lemma pushExpenseEvent_ok:
  assumes "wf_date cursor" "date_ge cursor hs"
  shows "\<exists>ev. pushExpenseEvent x cursor i evs = Inr (evs @ [ev]) \<and> fromExpense x ev
              \<and> toISODate cursor = Inr (date ev)"
proof -
  from date_ge_valid[OF assms(2)] obtain y m d where c: "cursor = Civil y m d" by blast
  from toISODate_valid[of y m d] assms(1) c obtain s where s: "toISODate cursor = Inr s" by auto
  show ?thesis by (simp add: pushExpenseEvent_def s fromExpense_def)
qed

lemma expenseWalk_props:
  "wf_date cursor \<Longrightarrow> i \<le> 5000 \<Longrightarrow>
     \<exists>n evs'. expenseWalk x hs he mx i occ cursor evs = Inr (n, evs @ evs')
       \<and> i \<le> n \<and> n \<le> 5000 \<and> length evs' \<le> n - i \<and> (\<forall>ev \<in> set evs'. fromExpense x ev)"
proof (induction x hs he mx i occ cursor evs rule: expenseWalk.induct)
  case (1 x hs he mx i occ cursor evs)
  note w = "1.prems"(1) and i = "1.prems"(2)
  show ?case
  proof (cases "i < 5000")
    case False
    then have "expenseWalk x hs he mx i occ cursor evs = Inr (i, evs)"
      by (subst expenseWalk.simps) simp
    then show ?thesis using i by simp
  next
    case True
    note lt = this
    show ?thesis
    proof (cases "n_ge (Fin (real occ)) mx \<or> date_gt cursor he")
      case True
      then have "expenseWalk x hs he mx i occ cursor evs = Inr (Suc i, evs)"
        using lt by (subst expenseWalk.simps) auto
      then show ?thesis using lt by simp
    next
      case False
      then have f: "\<not> n_ge (Fin (real occ)) mx" "\<not> date_gt cursor he" by simp_all
      obtain mid where p: "(if date_ge cursor hs then pushExpenseEvent x cursor i evs else Inr evs)
                               = Inr (evs @ mid)"
        and mid: "length mid \<le> 1" "\<forall>ev \<in> set mid. fromExpense x ev"
      proof (cases "date_ge cursor hs")
        case True
        from pushExpenseEvent_ok[OF w True, of x i evs] obtain ev where
          "pushExpenseEvent x cursor i evs = Inr (evs @ [ev])" "fromExpense x ev" by blast
        then show ?thesis using True that[of "[ev]"] by simp
      next
        case False
        then show ?thesis using that[of "[]"] by simp
      qed
      show ?thesis
      proof (cases "repeat x = RepeatNone")
        case True
        have "expenseWalk x hs he mx i occ cursor evs = Inr (Suc i, evs @ mid)"
          using lt f True by (subst expenseWalk.simps) (simp add: p)
        then show ?thesis using lt mid by simp
      next
        case False
        have e: "expenseWalk x hs he mx i occ cursor evs
                   = expenseWalk x hs he mx (Suc i) (Suc occ) (advanceExpenseDate cursor (repeat x))
                       (evs @ mid)"
          using lt f False by (subst expenseWalk.simps) (simp add: p)
        have "\<exists>n evs'. expenseWalk x hs he mx (Suc i) (Suc occ) (advanceExpenseDate cursor (repeat x))
                       (evs @ mid) = Inr (n, (evs @ mid) @ evs')
              \<and> Suc i \<le> n \<and> n \<le> 5000 \<and> length evs' \<le> n - Suc i
              \<and> (\<forall>ev \<in> set evs'. fromExpense x ev)"
          by (rule "1.IH"[OF lt f(1) f(2) p False wf_advanceExpenseDate]) (use lt in simp)
        then obtain n evs' where r: "expenseWalk x hs he mx (Suc i) (Suc occ)
              (advanceExpenseDate cursor (repeat x)) (evs @ mid) = Inr (n, (evs @ mid) @ evs')"
          and n: "Suc i \<le> n" "n \<le> 5000" "length evs' \<le> n - Suc i"
          and fe: "\<forall>ev \<in> set evs'. fromExpense x ev" by blast
        have "expenseWalk x hs he mx i occ cursor evs = Inr (n, evs @ (mid @ evs'))"
          using e r by simp
        moreover have "length (mid @ evs') \<le> n - i" using mid(1) n by simp
        moreover have "\<forall>ev \<in> set (mid @ evs'). fromExpense x ev" using mid(2) fe by auto
        ultimately show ?thesis using n by (metis Suc_leD)
      qed
    qed
  qed
qed

lemma pushIncomeEvent_ok:
  assumes "wf_date cursor" "date_ge cursor hs"
  shows "\<exists>ev. pushIncomeEvent net cursor i evs = Inr (evs @ [ev]) \<and> amount ev = net
              \<and> event_type ev = Income \<and> toISODate cursor = Inr (date ev)"
proof -
  from date_ge_valid[OF assms(2)] obtain y m d where c: "cursor = Civil y m d" by blast
  from toISODate_valid[of y m d] assms(1) c obtain s where s: "toISODate cursor = Inr s" by auto
  show ?thesis by (simp add: pushIncomeEvent_def s)
qed

lemma incomeWalk_props:
  "wf_date cursor \<Longrightarrow> i \<le> 5000 \<Longrightarrow>
     \<exists>n evs'. incomeWalk f net hs he i cursor evs = Inr (n, evs @ evs')
       \<and> i \<le> n \<and> n \<le> 5000 \<and> length evs' \<le> n - i"
proof (induction f net hs he i cursor evs rule: incomeWalk.induct)
  case (1 f net hs he i cursor evs)
  note w = "1.prems"(1) and i = "1.prems"(2)
  show ?case
  proof (cases "i < 5000")
    case False
    then have "incomeWalk f net hs he i cursor evs = Inr (i, evs)"
      by (subst incomeWalk.simps) simp
    then show ?thesis using i by simp
  next
    case True
    note lt = this
    show ?thesis
    proof (cases "date_gt cursor he")
      case True
      then have "incomeWalk f net hs he i cursor evs = Inr (Suc i, evs)"
        using lt by (subst incomeWalk.simps) auto
      then show ?thesis using lt by simp
    next
      case False
      note f = this
      obtain mid where p: "(if date_ge cursor hs then pushIncomeEvent net cursor i evs else Inr evs)
                               = Inr (evs @ mid)"
        and mid: "length mid \<le> 1"
      proof (cases "date_ge cursor hs")
        case True
        from pushIncomeEvent_ok[OF w True, of net i evs] obtain ev where
          "pushIncomeEvent net cursor i evs = Inr (evs @ [ev])" by blast
        then show ?thesis using True that[of "[ev]"] by simp
      next
        case False
        then show ?thesis using that[of "[]"] by simp
      qed
      have e: "incomeWalk f net hs he i cursor evs
                 = incomeWalk f net hs he (Suc i) (advanceIncomeDate cursor f) (evs @ mid)"
        using lt f by (subst incomeWalk.simps) (simp add: p)
      have "\<exists>n evs'. incomeWalk f net hs he (Suc i) (advanceIncomeDate cursor f) (evs @ mid)
                       = Inr (n, (evs @ mid) @ evs')
              \<and> Suc i \<le> n \<and> n \<le> 5000 \<and> length evs' \<le> n - Suc i"
        by (rule "1.IH"[OF lt f p wf_advanceIncomeDate]) (use lt in simp)
      then obtain n evs' where r: "incomeWalk f net hs he (Suc i) (advanceIncomeDate cursor f)
              (evs @ mid) = Inr (n, (evs @ mid) @ evs')"
        and n: "Suc i \<le> n" "n \<le> 5000" "length evs' \<le> n - Suc i" by blast
      have "incomeWalk f net hs he i cursor evs = Inr (n, evs @ (mid @ evs'))"
        using e r by simp
      moreover have "length (mid @ evs') \<le> n - i" using mid n by simp
      ultimately show ?thesis using n by (metis Suc_leD)
    qed
  qed
qed

lemma startOfDay_Invalid [simp]: "startOfDay InvalidDate = InvalidDate"
  by (simp add: startOfDay_def)

lemma advanceExpenseDate_Invalid [simp]: "advanceExpenseDate InvalidDate r = InvalidDate"
  by (cases r) (simp_all add: advanceExpenseDate_def addMonths_def addYears_def plusOpt_def minOpt_def)

lemma date_cmp_Invalid [simp]:
  "\<not> date_gt InvalidDate b" "\<not> date_ge InvalidDate b" "\<not> date_lt InvalidDate b"
  "\<not> date_gt a InvalidDate" "\<not> date_ge a InvalidDate" "\<not> date_lt a InvalidDate"
  by (simp_all add: date_gt_def date_ge_def date_lt_def split: option.splits)

lemma expenseWalk_stuck:
  assumes r: "repeat x \<noteq> RepeatNone"
  shows "i \<le> 5000 \<Longrightarrow> expenseWalk x hs he PosInf i occ InvalidDate evs = Inr (5000, evs)"
proof (induction "5000 - i" arbitrary: i occ)
  case 0
  then have "i = 5000" by simp
  then show ?case by (subst expenseWalk.simps) simp
next
  case (Suc k)
  then have lt: "i < 5000" and k: "k = 5000 - Suc i" by simp_all
  have "expenseWalk x hs he PosInf i occ InvalidDate evs
          = expenseWalk x hs he PosInf (Suc i) (Suc occ) InvalidDate evs"
    using lt r by (subst expenseWalk.simps) (simp add: n_ge_def)
  also have "\<dots> = Inr (5000, evs)" using Suc.hyps(1)[OF k] lt by simp
  finally show ?case .
qed

lemma weeklySlots_nonneg: "0 \<le> weeklySlots s e cursor"
  by (simp add: weeklySlots_def split: option.splits)

lemma week_step: "((x::int) - 7) div 7 = x div 7 - 1"
  by presburger

lemma weeklySlots_step:
  assumes c: "timeValue cursor = Some c" "c \<le> e"
    and n: "next = InvalidDate \<or> (\<exists>t. timeValue next = Some t \<and> c + 7 \<le> t)"
  shows "(if s \<le> c then 1 else 0) + weeklySlots s e next \<le> weeklySlots s e cursor"
proof (cases "timeValue next")
  case None
  then have "weeklySlots s e next = 0" by (simp add: weeklySlots_def)
  moreover have "s \<le> c \<Longrightarrow> 0 \<le> (e - c) div 7" using c(2) by simp
  ultimately show ?thesis using c by (auto simp: weeklySlots_def max_def)
next
  case (Some t)
  then have t: "c + 7 \<le> t" using n by auto
  show ?thesis
  proof (cases "e < t")
    case True
    then have "weeklySlots s e next = 0" by (simp add: weeklySlots_def Some)
    moreover have "s \<le> c \<Longrightarrow> 0 \<le> (e - c) div 7" using c(2) by simp
    ultimately show ?thesis using c by (auto simp: weeklySlots_def max_def)
  next
    case False
    then have te: "t \<le> e" by simp
    show ?thesis
    proof (cases "s \<le> c")
      case True
      then have mx: "max t s = t" "max c s = c" using t by simp_all
      have "(e - t) div 7 \<le> (e - c - 7) div 7"
        by (rule zdiv_mono1) (use t in simp_all)
      then have "(e - t) div 7 + 1 \<le> (e - c) div 7" by (simp add: week_step)
      moreover have "0 \<le> (e - t) div 7" using te by simp
      ultimately show ?thesis using True c te by (simp add: weeklySlots_def Some mx)
    next
      case False
      have "(e - max t s) div 7 \<le> (e - s) div 7"
        by (rule zdiv_mono1) simp_all
      moreover have "max c s = s" using False by simp
      ultimately show ?thesis using False c te by (simp add: weeklySlots_def Some max_def)
    qed
  qed
qed

lemma addDays_week:
  assumes "wf_date cursor" "timeValue cursor = Some c"
  shows "addDays cursor 7 = InvalidDate \<or> (\<exists>t. timeValue (addDays cursor 7) = Some t \<and> c + 7 \<le> t)"
proof -
  from assms(2) obtain y m d where cur: "cursor = Civil y m d" by (cases cursor) simp_all
  from addDays_advances[of y m d 7] assms cur show ?thesis by auto
qed

lemma expenseWalk_weekly:
  "wf_date cursor \<Longrightarrow> i \<le> 5000 \<Longrightarrow> repeat x = RepeatWeekly \<Longrightarrow> timeValue hs = Some s
     \<Longrightarrow> timeValue he = Some e \<Longrightarrow>
     \<exists>n evs'. expenseWalk x hs he mx i occ cursor evs = Inr (n, evs @ evs')
       \<and> int (length evs') \<le> weeklySlots s e cursor"
proof (induction x hs he mx i occ cursor evs rule: expenseWalk.induct)
  case (1 x hs he mx i occ cursor evs)
  note w = "1.prems"(1) and i = "1.prems"(2)
  note r = "1.prems"(3) and s = "1.prems"(4) and e = "1.prems"(5)
  show ?case
  proof (cases "i < 5000")
    case False
    then have "expenseWalk x hs he mx i occ cursor evs = Inr (i, evs)"
      by (subst expenseWalk.simps) simp
    then show ?thesis using weeklySlots_nonneg[of s e cursor] by simp
  next
    case True
    note lt = this
    show ?thesis
    proof (cases "n_ge (Fin (real occ)) mx \<or> date_gt cursor he")
      case True
      then have "expenseWalk x hs he mx i occ cursor evs = Inr (Suc i, evs)"
        using lt by (subst expenseWalk.simps) auto
      then show ?thesis using weeklySlots_nonneg[of s e cursor] by simp
    next
      case False
      then have f: "\<not> n_ge (Fin (real occ)) mx" "\<not> date_gt cursor he" by simp_all
      have rn: "repeat x \<noteq> RepeatNone" using r by simp
      obtain mid where p: "(if date_ge cursor hs then pushExpenseEvent x cursor i evs else Inr evs)
                               = Inr (evs @ mid)"
        and mid: "int (length mid) = (if date_ge cursor hs then 1 else 0)"
      proof (cases "date_ge cursor hs")
        case True
        from pushExpenseEvent_ok[OF w True, of x i evs] obtain ev where
          "pushExpenseEvent x cursor i evs = Inr (evs @ [ev])" by blast
        then show ?thesis using True that[of "[ev]"] by simp
      next
        case False
        then show ?thesis using that[of "[]"] by simp
      qed
      have adv: "advanceExpenseDate cursor (repeat x) = addDays cursor 7"
        by (simp add: advanceExpenseDate_def r)
      have step: "expenseWalk x hs he mx i occ cursor evs
                   = expenseWalk x hs he mx (Suc i) (Suc occ) (addDays cursor 7) (evs @ mid)"
        using lt f rn by (subst expenseWalk.simps) (simp add: p adv)
      have "\<exists>n evs'. expenseWalk x hs he mx (Suc i) (Suc occ) (advanceExpenseDate cursor (repeat x))
                       (evs @ mid) = Inr (n, (evs @ mid) @ evs')
              \<and> int (length evs') \<le> weeklySlots s e (advanceExpenseDate cursor (repeat x))"
        by (rule "1.IH"[OF lt f(1) f(2) p rn wf_advanceExpenseDate _ r s e]) (use lt in simp)
      then obtain n evs' where res: "expenseWalk x hs he mx (Suc i) (Suc occ) (addDays cursor 7)
              (evs @ mid) = Inr (n, (evs @ mid) @ evs')"
        and len: "int (length evs') \<le> weeklySlots s e (addDays cursor 7)"
        unfolding adv by blast
      have bound: "int (length mid) + weeklySlots s e (addDays cursor 7) \<le> weeklySlots s e cursor"
      proof (cases "timeValue cursor")
        case None
        then have "cursor = InvalidDate" by (cases cursor) simp_all
        then show ?thesis using mid by (simp add: weeklySlots_def)
      next
        case (Some c)
        have ce: "c \<le> e" using f(2) Some e by (simp add: date_gt_def date_lt_def)
        have ge: "date_ge cursor hs \<longleftrightarrow> s \<le> c" using Some s by (simp add: date_ge_def)
        from weeklySlots_step[OF Some ce addDays_week[OF w Some], of s]
        show ?thesis using mid ge by simp
      qed
      have "expenseWalk x hs he mx i occ cursor evs = Inr (n, evs @ (mid @ evs'))"
        using step res by simp
      moreover have "int (length (mid @ evs')) \<le> weeklySlots s e cursor"
        using bound len by simp
      ultimately show ?thesis by blast
    qed
  qed
qed

lemma weeklySlots_year:
  assumes "e \<le> s + 366"
  shows "weeklySlots s e cursor \<le> 53"
proof (cases "timeValue cursor")
  case None
  then show ?thesis by (simp add: weeklySlots_def)
next
  case (Some c)
  have "(e - max c s) div 7 \<le> 366 div 7"
    by (rule zdiv_mono1) (use assms in simp_all)
  then show ?thesis by (simp add: weeklySlots_def Some)
qed

lemma foldl_variableStep:
  "foldl (variableStep P x hs he) evs entries
     = evs @ map (variableEvent x) (filter (\<lambda>entry. inHorizon P hs he (snd entry)) entries)"
  by (induction entries arbitrary: evs) (simp_all add: variableStep_def inHorizon_def Let_def)

lemma snd_filter_enumerate:
  "map snd (filter (\<lambda>entry. Q (snd entry)) (enumerate n ds)) = filter Q ds"
  by (induction ds arbitrary: n) simp_all

lemma date_variableEvent: "date (variableEvent x entry) = snd entry"
  by (cases entry) (simp add: variableEvent_def)

lemma fromExpense_variableEvent: "fromExpense x (variableEvent x entry)"
  by (cases entry) (simp add: variableEvent_def fromExpense_def)

lemma variable_callback:
  assumes "variableMode x"
  shows "expenseCallback P hs he evs x
           = Inr (evs @ map (variableEvent x)
                    (filter (\<lambda>entry. inHorizon P hs he (snd entry))
                       (enumerate 0 (array_sort (localeCompare P) (nullish (variableDueDates x) [])))))"
  using assms by (simp add: expenseCallback_def Let_def foldl_variableStep)

lemma fixed_callback:
  assumes "\<not> variableMode x"
  shows "expenseCallback P hs he evs x = map_sum id snd (fixedSchedule P x hs he evs)"
  using assms by (simp add: expenseCallback_def)

lemma fixedSchedule_props:
  "\<exists>n new. fixedSchedule P x hs he evs = Inr (n, evs @ new) \<and> n \<le> 5000 \<and> length new \<le> n
      \<and> (\<forall>ev \<in> set new. fromExpense x ev)"
proof -
  from expenseWalk_props[OF wf_parseISODate, of 0 x hs he "maxOccurrences x" 0 P "firstDueDate x" evs]
  obtain n new where "expenseWalk x hs he (maxOccurrences x) 0 0 (parseISODate P (firstDueDate x)) evs
        = Inr (n, evs @ new)" "n \<le> 5000" "length new \<le> n - 0" "\<forall>ev \<in> set new. fromExpense x ev"
    by auto
  then show ?thesis by (auto simp: fixedSchedule_def Let_def)
qed

lemma expenseCallback_props:
  "\<exists>new. expenseCallback P hs he evs x = Inr (evs @ new) \<and> (\<forall>ev \<in> set new. fromExpense x ev)"
proof (cases "variableMode x")
  case True
  show ?thesis unfolding variable_callback[OF True]
    by (intro exI conjI, rule refl) (auto simp: fromExpense_variableEvent)
next
  case False
  from fixedSchedule_props[of P x hs he evs] obtain n new where
    "fixedSchedule P x hs he evs = Inr (n, evs @ new)" "\<forall>ev \<in> set new. fromExpense x ev" by blast
  then show ?thesis unfolding fixed_callback[OF False] by simp
qed

lemma forEachExpense_props:
  "\<exists>new. forEachExpense P hs he evs xs = Inr (evs @ new)
      \<and> (\<forall>ev \<in> set new. \<exists>x \<in> set xs. fromExpense x ev)"
proof (induction xs arbitrary: evs)
  case Nil
  then show ?case by simp
next
  case (Cons x xs)
  from expenseCallback_props[of P hs he evs x] obtain mid where
    m: "expenseCallback P hs he evs x = Inr (evs @ mid)" "\<forall>ev \<in> set mid. fromExpense x ev" by blast
  from Cons.IH[of "evs @ mid"] obtain new where
    n: "forEachExpense P hs he (evs @ mid) xs = Inr ((evs @ mid) @ new)"
      "\<forall>ev \<in> set new. \<exists>x \<in> set xs. fromExpense x ev" by blast
  have "forEachExpense P hs he evs (x # xs) = Inr (evs @ (mid @ new))"
    using m(1) n(1) by simp
  moreover have "\<forall>ev \<in> set (mid @ new). \<exists>y \<in> set (x # xs). fromExpense y ev"
    using m(2) n(2) by auto
  ultimately show ?case by blast
qed

lemma single_fixed:
  assumes "\<not> variableMode x"
  shows "generateExpenseEvents P [x] hs he = map_sum id snd (fixedSchedule P x hs he [])"
proof -
  obtain n new where "fixedSchedule P x hs he [] = Inr (n, new)"
    using fixedSchedule_props[of P x hs he "[]"] by auto
  then show ?thesis by (simp add: generateExpenseEvents_def fixed_callback[OF assms])
qed


lemma ceiling_minus_one: "\<lceil>- 1 :: real\<rceil> = - 1"
  using ceiling_of_int[of "- 1", where 'a = real] by simp

lemmas date_eval = ceiling_minus_one parseISODate_def host_def decimalNumber_def isDigit_def digitValue_def nullish_def
  n_sub_def makeDate_def daysInMonth_def timeClip_def dayFromYear_def daysBeforeMonth_eval
  isLeapYear_def normalizeDay.simps startOfDay_def addDays_def addMonths_def addYears_def
  plusOpt_def minOpt_def date_lt_def date_gt_def date_ge_def toISODate_def isoYear_def padStart_def
  decimal.simps Let_def isValidDate_def

lemmas expense_eval = generateExpenseEvents_def expenseCallback_def variableMode_def
  fixedSchedule_def maxOccurrences_def isFiniteOpt_def expenseWalk.simps n_ge_def n_gt_def
  pushExpenseEvent_def advanceExpenseDate_def variableStep_def variableEvent_def
  marchStart_def marchEnd_def gymExpense_def

lemma maxOccurrences_amount [simp]: "maxOccurrences (x \<lparr> expense_amount := a \<rparr>) = maxOccurrences x"
  by (simp add: maxOccurrences_def)

lemma variableMode_amount [simp]: "variableMode (x \<lparr> expense_amount := a \<rparr>) = variableMode x"
  by (simp add: variableMode_def)

lemma pushExpenseEvent_amount:
  assumes "map blankAmount evs' = map blankAmount evs"
  shows "map_sum id (map blankAmount) (pushExpenseEvent (x \<lparr> expense_amount := a \<rparr>) cursor i evs')
           = map_sum id (map blankAmount) (pushExpenseEvent x cursor i evs)"
  using assms by (simp add: pushExpenseEvent_def blankAmount_def split: sum.splits)

lemma expenseWalk_amount:
  "map blankAmount evs' = map blankAmount evs \<Longrightarrow>
     map_sum id (map_prod id (map blankAmount))
         (expenseWalk (x \<lparr> expense_amount := a \<rparr>) hs he mx i occ cursor evs')
       = map_sum id (map_prod id (map blankAmount)) (expenseWalk x hs he mx i occ cursor evs)"
proof (induction x hs he mx i occ cursor evs arbitrary: evs' rule: expenseWalk.induct)
  case (1 x hs he mx i occ cursor evs)
  let ?x' = "x \<lparr> expense_amount := a \<rparr>"
  note rel = "1.prems"
  show ?case
  proof (cases "i < 5000")
    case False
    then show ?thesis using rel
      by (subst expenseWalk.simps, subst (2) expenseWalk.simps) simp
  next
    case True
    note lt = this
    show ?thesis
    proof (cases "n_ge (Fin (real occ)) mx \<or> date_gt cursor he")
      case True
      then show ?thesis using lt rel
        by (subst expenseWalk.simps, subst (2) expenseWalk.simps) auto
    next
      case False
      then have f: "\<not> n_ge (Fin (real occ)) mx" "\<not> date_gt cursor he" by simp_all
      let ?p = "if date_ge cursor hs then pushExpenseEvent x cursor i evs else Inr evs"
      let ?p' = "if date_ge cursor hs then pushExpenseEvent ?x' cursor i evs' else Inr evs'"
      have pp: "map_sum id (map blankAmount) ?p' = map_sum id (map blankAmount) ?p"
        using pushExpenseEvent_amount[OF rel, where x = x and a = a and cursor = cursor and i = i] rel by simp
      show ?thesis
      proof (cases ?p)
        case (Inl e)
        then have "?p' = Inl e" using pp by (cases ?p') simp_all
        then show ?thesis using lt f Inl
          by (subst expenseWalk.simps, subst (2) expenseWalk.simps) simp
      next
        case (Inr mid)
        then obtain mid' where mid': "?p' = Inr mid'" and mm: "map blankAmount mid' = map blankAmount mid"
          using pp by (cases ?p') simp_all
        show ?thesis
        proof (cases "repeat x = RepeatNone")
          case True
          then show ?thesis using lt f Inr mid' mm
            by (subst expenseWalk.simps, subst (2) expenseWalk.simps) simp
        next
          case False
          have l: "expenseWalk ?x' hs he mx i occ cursor evs'
                     = expenseWalk ?x' hs he mx (Suc i) (Suc occ) (advanceExpenseDate cursor (repeat x)) mid'"
            using lt f False mid' by (subst expenseWalk.simps) simp
          have r: "expenseWalk x hs he mx i occ cursor evs
                     = expenseWalk x hs he mx (Suc i) (Suc occ) (advanceExpenseDate cursor (repeat x)) mid"
            using lt f False Inr by (subst expenseWalk.simps) simp
          show ?thesis unfolding l r
            by (rule "1.IH"[OF lt f(1) f(2) Inr False mm])
        qed
      qed
    qed
  qed
qed


lemma variableEvent_amount:
  "blankAmount (variableEvent (x \<lparr> expense_amount := a \<rparr>) entry) = blankAmount (variableEvent x entry)"
  by (cases entry) (simp add: variableEvent_def blankAmount_def)

lemma expenseCallback_amount:
  assumes rel: "map blankAmount evs' = map blankAmount evs"
  shows "map_sum id (map blankAmount) (expenseCallback P hs he evs' (x \<lparr> expense_amount := a \<rparr>))
           = map_sum id (map blankAmount) (expenseCallback P hs he evs x)"
proof (cases "variableMode x")
  case True
  then have v': "variableMode (x \<lparr> expense_amount := a \<rparr>)" by simp
  show ?thesis
    unfolding variable_callback[OF True] variable_callback[OF v']
    by (simp add: rel variableEvent_amount)
next
  case False
  then have v': "\<not> variableMode (x \<lparr> expense_amount := a \<rparr>)" by simp
  have "map_sum id (map_prod id (map blankAmount))
            (fixedSchedule P (x \<lparr> expense_amount := a \<rparr>) hs he evs')
          = map_sum id (map_prod id (map blankAmount)) (fixedSchedule P x hs he evs)"
    unfolding fixedSchedule_def Let_def using expenseWalk_amount[OF rel] by simp
  then have "map_sum id (map blankAmount)
                (map_sum id snd (fixedSchedule P (x \<lparr> expense_amount := a \<rparr>) hs he evs'))
          = map_sum id (map blankAmount) (map_sum id snd (fixedSchedule P x hs he evs))"
    by (cases "fixedSchedule P (x \<lparr> expense_amount := a \<rparr>) hs he evs'";
        cases "fixedSchedule P x hs he evs") auto
  then show ?thesis unfolding fixed_callback[OF False] fixed_callback[OF v'] .
qed

lemma forEachExpense_amount:
  "map blankAmount evs' = map blankAmount evs \<Longrightarrow>
     map_sum id (map blankAmount)
         (forEachExpense P hs he evs' (map (\<lambda>x. x \<lparr> expense_amount := f x \<rparr>) xs))
       = map_sum id (map blankAmount) (forEachExpense P hs he evs xs)"
proof (induction xs arbitrary: evs evs')
  case Nil
  then show ?case by simp
next
  case (Cons x xs)
  let ?c' = "expenseCallback P hs he evs' (x \<lparr> expense_amount := f x \<rparr>)"
  let ?c = "expenseCallback P hs he evs x"
  have cc: "map_sum id (map blankAmount) ?c' = map_sum id (map blankAmount) ?c"
    by (rule expenseCallback_amount[OF Cons.prems])
  show ?case
  proof (cases ?c)
    case (Inl e)
    then have "?c' = Inl e" using cc by (cases ?c') simp_all
    then show ?thesis using Inl by simp
  next
    case (Inr mid)
    then obtain mid' where m: "?c' = Inr mid'" "map blankAmount mid' = map blankAmount mid"
      using cc by (cases ?c') simp_all
    show ?thesis using Cons.IH[OF m(2)] Inr m(1) by simp
  qed
qed

lemma fixed_first_event:
  assumes occ: "\<not> n_ge (Fin 0) (maxOccurrences x)"
    and ge: "date_ge (parseISODate P (firstDueDate x)) hs"
    and le: "\<not> date_gt (parseISODate P (firstDueDate x)) he"
  shows "\<exists>n new ev. fixedSchedule P x hs he acc = Inr (n, acc @ new) \<and> ev \<in> set new
            \<and> fromExpense x ev \<and> toISODate (parseISODate P (firstDueDate x)) = Inr (date ev)"
proof -
  let ?cursor = "parseISODate P (firstDueDate x)"
  from pushExpenseEvent_ok[OF wf_parseISODate ge, of x 0 acc] obtain ev where
    p: "pushExpenseEvent x ?cursor 0 acc = Inr (acc @ [ev])" and fe: "fromExpense x ev"
    and d: "toISODate ?cursor = Inr (date ev)" by blast
  show ?thesis
  proof (cases "repeat x = RepeatNone")
    case True
    have "fixedSchedule P x hs he acc = Inr (1, acc @ [ev])"
      unfolding fixedSchedule_def Let_def
      using occ ge le True p by (subst expenseWalk.simps) simp
    then show ?thesis using fe d by auto
  next
    case False
    have e: "fixedSchedule P x hs he acc
               = expenseWalk x hs he (maxOccurrences x) (Suc 0) (Suc 0)
                   (advanceExpenseDate ?cursor (repeat x)) (acc @ [ev])"
      unfolding fixedSchedule_def Let_def
      using occ ge le False p by (subst expenseWalk.simps) simp
    from expenseWalk_props[OF wf_advanceExpenseDate, of "Suc 0" x hs he "maxOccurrences x" "Suc 0"
        ?cursor "repeat x" "acc @ [ev]"]
    obtain n evs' where "expenseWalk x hs he (maxOccurrences x) (Suc 0) (Suc 0)
                   (advanceExpenseDate ?cursor (repeat x)) (acc @ [ev]) = Inr (n, (acc @ [ev]) @ evs')"
      by auto
    then have "fixedSchedule P x hs he acc = Inr (n, acc @ ([ev] @ evs'))" using e by simp
    moreover have "ev \<in> set ([ev] @ evs')" by simp
    ultimately show ?thesis using fe d by blast
  qed
qed

lemma in_set_enumerate_snd: "d \<in> set ds \<Longrightarrow> \<exists>i. (i, d) \<in> set (enumerate n ds)"
  by (induction ds arbitrary: n) auto

lemma variable_live:
  assumes v: "variableMode x" and d: "d \<in> set (nullish (variableDueDates x) [])"
    and h: "inHorizon P hs he d"
  shows "\<exists>new ev. expenseCallback P hs he acc x = Inr (acc @ new) \<and> ev \<in> set new
            \<and> fromExpense x ev \<and> date ev = d"
proof -
  let ?sorted = "array_sort (localeCompare P) (nullish (variableDueDates x) [])"
  let ?new = "map (variableEvent x)
                (filter (\<lambda>entry. inHorizon P hs he (snd entry)) (enumerate 0 ?sorted))"
  have "d \<in> set ?sorted" using d by (simp add: set_array_sort)
  from in_set_enumerate_snd[OF this, of 0]
  obtain i where i: "(i, d) \<in> set (enumerate 0 ?sorted)" by blast
  then have "(i, d) \<in> set (filter (\<lambda>entry. inHorizon P hs he (snd entry)) (enumerate 0 ?sorted))"
    using h by simp
  then have "variableEvent x (i, d) \<in> set ?new" unfolding set_map by (rule imageI)
  moreover have "fromExpense x (variableEvent x (i, d))" by (rule fromExpense_variableEvent)
  moreover have "date (variableEvent x (i, d)) = d" by (simp add: date_variableEvent)
  ultimately show ?thesis unfolding variable_callback[OF v] by blast
qed

lemma forEachExpense_live:
  "\<exists>new. forEachExpense P hs he evs xs = Inr (evs @ new)
      \<and> (\<forall>x \<in> set xs. \<exists>acc mid. expenseCallback P hs he acc x = Inr (acc @ mid)
                                   \<and> set mid \<subseteq> set new)"
proof (induction xs arbitrary: evs)
  case Nil
  then show ?case by simp
next
  case (Cons x xs)
  from expenseCallback_props[of P hs he evs x] obtain mid where
    m: "expenseCallback P hs he evs x = Inr (evs @ mid)" by blast
  from Cons.IH[of "evs @ mid"] obtain new where
    n: "forEachExpense P hs he (evs @ mid) xs = Inr ((evs @ mid) @ new)"
    and l: "\<forall>y \<in> set xs. \<exists>acc mid'. expenseCallback P hs he acc y = Inr (acc @ mid')
                                   \<and> set mid' \<subseteq> set new" by blast
  have r: "forEachExpense P hs he evs (x # xs) = Inr (evs @ (mid @ new))"
    using m n by simp
  have "\<forall>y \<in> set (x # xs). \<exists>acc mid'. expenseCallback P hs he acc y = Inr (acc @ mid')
                                   \<and> set mid' \<subseteq> set (mid @ new)"
  proof
    fix y assume "y \<in> set (x # xs)"
    then consider "y = x" | "y \<in> set xs" by auto
    then show "\<exists>acc mid'. expenseCallback P hs he acc y = Inr (acc @ mid')
                                   \<and> set mid' \<subseteq> set (mid @ new)"
    proof cases
      case 1
      have "set mid \<subseteq> set (mid @ new)" by simp
      then show ?thesis using m 1 by blast
    next
      case 2
      from l 2 obtain acc mid' where "expenseCallback P hs he acc y = Inr (acc @ mid')"
        "set mid' \<subseteq> set new" by blast
      moreover then have "set mid' \<subseteq> set (mid @ new)" by auto
      ultimately show ?thesis by blast
    qed
  qed
  then show ?case using r by blast
qed


text \<open>
  C10. For every list of expenses and every horizon, generation returns. Every event it
  returns belongs to an expense of the list, whose id it carries as source id and whose
  amount it carries unchanged. Events are emitted whatever the amount is: an expense in
  variable-dates mode has an event on each listed due date that falls within the horizon,
  and an expense on the fixed schedule that is allowed at least one occurrence and whose
  first due date is within the horizon has an event on that date, each with the amount of
  the expense. And replacing the amounts of the expenses by any other numbers changes
  nothing in the result but the amounts of the events.
\<close>

theorem generateExpenseEvents_amount_verbatim:
  "\<exists>evs. generateExpenseEvents P expenses hs he = Inr evs
     \<and> (\<forall>ev \<in> set evs. \<exists>x \<in> set expenses.
           sourceId ev = Some (expense_id x) \<and> amount ev = expense_amount x)
     \<and> (\<forall>x \<in> set expenses. \<forall>d \<in> set (nullish (variableDueDates x) []).
           variableMode x \<and> inHorizon P hs he d
           \<longrightarrow> (\<exists>ev \<in> set evs. date ev = d \<and> sourceId ev = Some (expense_id x)
                                \<and> amount ev = expense_amount x))
     \<and> (\<forall>x \<in> set expenses.
           \<not> variableMode x \<and> \<not> n_ge (Fin 0) (maxOccurrences x)
           \<and> date_ge (parseISODate P (firstDueDate x)) hs
           \<and> \<not> date_gt (parseISODate P (firstDueDate x)) he
           \<longrightarrow> (\<exists>ev \<in> set evs. toISODate (parseISODate P (firstDueDate x)) = Inr (date ev)
                                \<and> sourceId ev = Some (expense_id x)
                                \<and> amount ev = expense_amount x))
     \<and> (\<forall>f. map_sum id (map blankAmount)
               (generateExpenseEvents P (map (\<lambda>x. x \<lparr> expense_amount := f x \<rparr>) expenses) hs he)
             = Inr (map blankAmount evs))"
proof -
  from forEachExpense_props[of P hs he "[]" expenses] obtain evs where
    g: "forEachExpense P hs he [] expenses = Inr evs"
    and a: "\<forall>ev \<in> set evs. \<exists>x \<in> set expenses. fromExpense x ev" by auto
  from forEachExpense_live[of P hs he "[]" expenses] g have
    l: "\<forall>x \<in> set expenses. \<exists>acc mid. expenseCallback P hs he acc x = Inr (acc @ mid)
                                   \<and> set mid \<subseteq> set evs" by simp
  have A: "\<forall>ev \<in> set evs. \<exists>x \<in> set expenses.
           sourceId ev = Some (expense_id x) \<and> amount ev = expense_amount x"
    using a unfolding fromExpense_def by blast
  have B: "\<forall>x \<in> set expenses. \<forall>d \<in> set (nullish (variableDueDates x) []).
           variableMode x \<and> inHorizon P hs he d
           \<longrightarrow> (\<exists>ev \<in> set evs. date ev = d \<and> sourceId ev = Some (expense_id x)
                                \<and> amount ev = expense_amount x)"
  proof (intro ballI impI, elim conjE)
    fix x d
    assume x: "x \<in> set expenses" and d: "d \<in> set (nullish (variableDueDates x) [])"
      and v: "variableMode x" and h: "inHorizon P hs he d"
    from l x obtain acc mid where m: "expenseCallback P hs he acc x = Inr (acc @ mid)"
      "set mid \<subseteq> set evs" by blast
    from variable_live[OF v d h, of acc] obtain new ev where
      n: "expenseCallback P hs he acc x = Inr (acc @ new)" "ev \<in> set new" "fromExpense x ev"
        "date ev = d" by blast
    from m(1) n(1) have "new = mid" by simp
    then have "ev \<in> set evs" using n(2) m(2) by auto
    then show "\<exists>ev \<in> set evs. date ev = d \<and> sourceId ev = Some (expense_id x)
                                \<and> amount ev = expense_amount x"
      using n(3,4) unfolding fromExpense_def by blast
  qed
  have C: "\<forall>x \<in> set expenses.
           \<not> variableMode x \<and> \<not> n_ge (Fin 0) (maxOccurrences x)
           \<and> date_ge (parseISODate P (firstDueDate x)) hs
           \<and> \<not> date_gt (parseISODate P (firstDueDate x)) he
           \<longrightarrow> (\<exists>ev \<in> set evs. toISODate (parseISODate P (firstDueDate x)) = Inr (date ev)
                                \<and> sourceId ev = Some (expense_id x)
                                \<and> amount ev = expense_amount x)"
  proof (intro ballI impI, elim conjE)
    fix x
    assume x: "x \<in> set expenses" and v: "\<not> variableMode x"
      and occ: "\<not> n_ge (Fin 0) (maxOccurrences x)"
      and ge: "date_ge (parseISODate P (firstDueDate x)) hs"
      and le: "\<not> date_gt (parseISODate P (firstDueDate x)) he"
    from l x obtain acc mid where m: "expenseCallback P hs he acc x = Inr (acc @ mid)"
      "set mid \<subseteq> set evs" by blast
    from fixed_first_event[OF occ ge le, of acc] obtain n new ev where
      n: "fixedSchedule P x hs he acc = Inr (n, acc @ new)" "ev \<in> set new" "fromExpense x ev"
        "toISODate (parseISODate P (firstDueDate x)) = Inr (date ev)" by blast
    from m(1) n(1) have "new = mid" by (simp add: fixed_callback[OF v])
    then have "ev \<in> set evs" using n(2) m(2) by auto
    then show "\<exists>ev \<in> set evs. toISODate (parseISODate P (firstDueDate x)) = Inr (date ev)
                                \<and> sourceId ev = Some (expense_id x)
                                \<and> amount ev = expense_amount x"
      using n(3,4) unfolding fromExpense_def by blast
  qed
  have D: "\<forall>f. map_sum id (map blankAmount)
               (generateExpenseEvents P (map (\<lambda>x. x \<lparr> expense_amount := f x \<rparr>) expenses) hs he)
             = Inr (map blankAmount evs)"
  proof
    fix f
    have "map_sum id (map blankAmount)
            (forEachExpense P hs he [] (map (\<lambda>x. x \<lparr> expense_amount := f x \<rparr>) expenses))
          = map_sum id (map blankAmount) (forEachExpense P hs he [] expenses)"
      by (rule forEachExpense_amount) simp
    then show "map_sum id (map blankAmount)
               (generateExpenseEvents P (map (\<lambda>x. x \<lparr> expense_amount := f x \<rparr>) expenses) hs he)
             = Inr (map blankAmount evs)"
      by (simp add: generateExpenseEvents_def g)
  qed
  have G: "generateExpenseEvents P expenses hs he = Inr evs"
    by (simp add: generateExpenseEvents_def g)
  show ?thesis
    by (rule exI[of _ evs], intro conjI) (rule G, rule A, rule B, rule C, rule D)
qed

text \<open>
  An expense in variable-dates mode with an amount of -30 and a one-off fee on the fixed
  schedule with an amount of NaN, in March 2024: three events, two of -30 and one of NaN;
  from a balance of 100 the forecast posts them as 130, NaN and NaN.
\<close>

theorem generateExpenseEvents_amount_verbatim_witness:
  "variableMode negativeGym \<and> expense_amount negativeGym = Fin (- 30)
   \<and> ''2024-03-02'' \<in> set (nullish (variableDueDates negativeGym) [])
   \<and> inHorizon host marchStart marchEnd ''2024-03-02''
   \<and> \<not> variableMode nanFee \<and> expense_amount nanFee = NaN
   \<and> \<not> n_ge (Fin 0) (maxOccurrences nanFee)
   \<and> date_ge (parseISODate host (firstDueDate nanFee)) marchStart
   \<and> \<not> date_gt (parseISODate host (firstDueDate nanFee)) marchEnd
   \<and> map_sum id (map (\<lambda>ev. (date ev, amount ev)))
        (generateExpenseEvents host [negativeGym, nanFee] marchStart marchEnd)
       = Inr [(''2024-03-02'', Fin (- 30)), (''2024-03-20'', Fin (- 30)), (''2024-03-05'', NaN)]
   \<and> map_sum id (\<lambda>evs. map (\<lambda>r. (date r, runningBalance r)) (buildForecast host evs (Fin 100)))
        (generateExpenseEvents host [negativeGym, nanFee] marchStart marchEnd)
       = Inr [(''2024-03-02'', Fin 130), (''2024-03-05'', NaN), (''2024-03-20'', NaN)]"
  using generateExpenseEvents_amount_verbatim [of host "[negativeGym, nanFee]" marchStart marchEnd]
  by (simp add: negativeGym_def variableGym_def nanFee_def oneOffFee_def expense_eval date_eval
      inHorizon_def codeUnitCompare_def buildForecast_def compareEvents_def post_def
      withBalance_def)

lemma maxOccurrences_none: "repeat x = RepeatNone \<Longrightarrow> maxOccurrences x = Fin 1"
  by (simp add: maxOccurrences_def)

lemma fixedSchedule_none:
  assumes "repeat x = RepeatNone"
  shows "fixedSchedule P x hs he evs =
           (if date_gt (parseISODate P (firstDueDate x)) he then Inr (1, evs)
            else case (if date_ge (parseISODate P (firstDueDate x)) hs
                       then pushExpenseEvent x (parseISODate P (firstDueDate x)) 0 evs
                       else Inr evs) of
                   Inl e \<Rightarrow> Inl e
                 | Inr evs' \<Rightarrow> Inr (1, evs'))"
  unfolding fixedSchedule_def Let_def maxOccurrences_none[OF assms]
  by (subst expenseWalk.simps) (simp add: assms n_ge_def split: sum.splits)

lemma pushExpenseEvent_repeatCount:
  "pushExpenseEvent (x \<lparr> repeatCount := rc \<rparr>) = pushExpenseEvent x"
  by (intro ext) (simp add: pushExpenseEvent_def split: sum.splits)

lemma variableMode_repeatCount: "variableMode (x \<lparr> repeatCount := rc \<rparr>) = variableMode x"
  by (simp add: variableMode_def)

text \<open>
  C8. For every expense on the fixed schedule (variable-dates mode not selected) whose
  repeat is none: the loop body is entered once and the walk never advances; generation
  returns at most one event, exactly one when the first due date is on or after the start
  of the horizon and not after its end, and none otherwise; the event carries the fields of
  the expense and the first due date; and the repeat count has no influence on the result.
\<close>

theorem repeat_none_single_occurrence:
  "\<not> variableMode x \<and> repeat x = RepeatNone \<longrightarrow>
     (let cursor = parseISODate P (firstDueDate x);
          inside = (date_ge cursor hs \<and> \<not> date_gt cursor he)
      in (\<exists>evs. fixedSchedule P x hs he [] = Inr (1, evs)
                \<and> generateExpenseEvents P [x] hs he = Inr evs
                \<and> length evs = (if inside then 1 else 0)
                \<and> (\<forall>ev \<in> set evs. fromExpense x ev \<and> toISODate cursor = Inr (date ev)))
         \<and> generateExpenseEvents P [x \<lparr> repeatCount := rc \<rparr>] hs he
             = generateExpenseEvents P [x] hs he)"
proof (intro impI, elim conjE)
  assume fixed: "\<not> variableMode x" and none: "repeat x = RepeatNone"
  let ?cursor = "parseISODate P (firstDueDate x)"
  let ?x' = "x \<lparr> repeatCount := rc \<rparr>"
  have none': "repeat ?x' = RepeatNone" using none by simp
  have fixed': "\<not> variableMode ?x'" using fixed by (simp add: variableMode_repeatCount)
  have same: "fixedSchedule P ?x' hs he [] = fixedSchedule P x hs he []"
    unfolding fixedSchedule_none[OF none] fixedSchedule_none[OF none']
    by (simp add: pushExpenseEvent_repeatCount)
  have indep: "generateExpenseEvents P [?x'] hs he = generateExpenseEvents P [x] hs he"
    unfolding single_fixed[OF fixed] single_fixed[OF fixed'] same ..
  have main: "\<exists>evs. fixedSchedule P x hs he [] = Inr (1, evs)
                \<and> length evs = (if date_ge ?cursor hs \<and> \<not> date_gt ?cursor he then 1 else 0)
                \<and> (\<forall>ev \<in> set evs. fromExpense x ev \<and> toISODate ?cursor = Inr (date ev))"
  proof (cases "date_gt ?cursor he")
    case True
    then show ?thesis by (simp add: fixedSchedule_none[OF none])
  next
    case False
    note le = this
    show ?thesis
    proof (cases "date_ge ?cursor hs")
      case True
      from pushExpenseEvent_ok[OF wf_parseISODate True, of x 0 "[]"] obtain ev where
        "pushExpenseEvent x ?cursor 0 [] = Inr ([] @ [ev])" "fromExpense x ev"
        "toISODate ?cursor = Inr (date ev)" by blast
      then show ?thesis using le True by (simp add: fixedSchedule_none[OF none])
    next
      case False
      then show ?thesis using le by (simp add: fixedSchedule_none[OF none])
    qed
  qed
  then obtain evs where e: "fixedSchedule P x hs he [] = Inr (1, evs)"
    "length evs = (if date_ge ?cursor hs \<and> \<not> date_gt ?cursor he then 1 else 0)"
    "\<forall>ev \<in> set evs. fromExpense x ev \<and> toISODate ?cursor = Inr (date ev)" by blast
  have g: "generateExpenseEvents P [x] hs he = Inr evs"
    by (simp add: single_fixed[OF fixed] e(1))
  show "let cursor = parseISODate P (firstDueDate x);
          inside = (date_ge cursor hs \<and> \<not> date_gt cursor he)
      in (\<exists>evs. fixedSchedule P x hs he [] = Inr (1, evs)
                \<and> generateExpenseEvents P [x] hs he = Inr evs
                \<and> length evs = (if inside then 1 else 0)
                \<and> (\<forall>ev \<in> set evs. fromExpense x ev \<and> toISODate cursor = Inr (date ev)))
         \<and> generateExpenseEvents P [x \<lparr> repeatCount := rc \<rparr>] hs he
             = generateExpenseEvents P [x] hs he"
    unfolding Let_def using e g indep by blast
qed

text \<open>
  A one-off fee with a repeat count of 12, due 2024-03-05, in March 2024: one event on
  that date, after one entry into the loop body.
\<close>

theorem repeat_none_single_occurrence_witness:
  "\<not> variableMode oneOffFee \<and> repeat oneOffFee = RepeatNone
   \<and> repeatCount oneOffFee = Some (Fin 12)
   \<and> date_ge (parseISODate host (firstDueDate oneOffFee)) marchStart
   \<and> \<not> date_gt (parseISODate host (firstDueDate oneOffFee)) marchEnd
   \<and> map_sum id (map date) (generateExpenseEvents host [oneOffFee] marchStart marchEnd)
       = Inr [''2024-03-05'']
   \<and> map_sum id fst (fixedSchedule host oneOffFee marchStart marchEnd []) = Inr 1"
  using repeat_none_single_occurrence [of oneOffFee host marchStart marchEnd "None"]
  by (simp add: oneOffFee_def expense_eval date_eval)

lemma variableEvent_fields:
  "variableEvent (x \<lparr> repeat := r, repeatCount := rc \<rparr>) = variableEvent x"
  by (intro ext) (simp add: variableEvent_def split_beta)

lemma sorted_array_sort_strings:
  assumes c: "collation lc"
  shows "sorted_wrt (\<lambda>a b. lc a b \<le> 0) (array_sort lc ds)"
proof (rule sorted_array_sort)
  show "\<And>a b. lc a b \<le> 0 \<or> lc b a \<le> 0" using collation_cmp_total[OF c] .
  show "\<And>a b c. lc a b \<le> 0 \<Longrightarrow> lc b c \<le> 0 \<Longrightarrow> lc a c \<le> 0"
    using collation_cmp_trans[OF c] .
qed

text \<open>
  C7, as amended. For every expense in variable-dates mode (variable dates switched on and
  at least one due date listed), generation returns one event per listed due date that
  falls within the horizon, in the order of the sorted list of due dates (ascending when
  the host's collation is a total order), each carrying the fields of the expense; and the
  result does not depend on the repeat and repeat-count fields.
\<close>

theorem variable_dates_only:
  "variableMode x \<longrightarrow>
     (\<exists>evs. generateExpenseEvents P [x] hs he = Inr evs
        \<and> map date evs = filter (inHorizon P hs he)
                            (array_sort (localeCompare P) (nullish (variableDueDates x) []))
        \<and> (\<forall>ev \<in> set evs. fromExpense x ev)
        \<and> (collation (localeCompare P) \<longrightarrow>
              sorted_wrt (\<lambda>a b. localeCompare P a b \<le> 0) (map date evs)))
     \<and> generateExpenseEvents P [x \<lparr> repeat := r, repeatCount := rc \<rparr>] hs he
         = generateExpenseEvents P [x] hs he"
proof
  assume v: "variableMode x"
  let ?x' = "x \<lparr> repeat := r, repeatCount := rc \<rparr>"
  let ?sorted = "array_sort (localeCompare P) (nullish (variableDueDates x) [])"
  let ?evs = "map (variableEvent x)
                (filter (\<lambda>entry. inHorizon P hs he (snd entry)) (enumerate 0 ?sorted))"
  have v': "variableMode ?x'" using v by (simp add: variableMode_def)
  have g: "generateExpenseEvents P [x] hs he = Inr ?evs"
    by (simp add: generateExpenseEvents_def variable_callback[OF v])
  have g': "generateExpenseEvents P [?x'] hs he = Inr ?evs"
    by (simp add: generateExpenseEvents_def variable_callback[OF v'] variableEvent_fields)
  have "map date ?evs
          = map snd (filter (\<lambda>entry. inHorizon P hs he (snd entry)) (enumerate 0 ?sorted))"
    by (simp add: date_variableEvent)
  also have "\<dots> = filter (inHorizon P hs he) ?sorted" by (rule snd_filter_enumerate)
  finally have d: "map date ?evs = filter (inHorizon P hs he) ?sorted" .
  have f: "\<forall>ev \<in> set ?evs. fromExpense x ev" by (auto simp: fromExpense_variableEvent)
  have s: "collation (localeCompare P) \<longrightarrow> sorted_wrt (\<lambda>a b. localeCompare P a b \<le> 0) (map date ?evs)"
    unfolding d using sorted_array_sort_strings[of "localeCompare P"] sorted_wrt_filter by blast
  show "(\<exists>evs. generateExpenseEvents P [x] hs he = Inr evs
        \<and> map date evs = filter (inHorizon P hs he)
                            (array_sort (localeCompare P) (nullish (variableDueDates x) []))
        \<and> (\<forall>ev \<in> set evs. fromExpense x ev)
        \<and> (collation (localeCompare P) \<longrightarrow>
              sorted_wrt (\<lambda>a b. localeCompare P a b \<le> 0) (map date evs)))
     \<and> generateExpenseEvents P [x \<lparr> repeat := r, repeatCount := rc \<rparr>] hs he
         = generateExpenseEvents P [x] hs he"
    using g g' d f s by (metis (no_types, lifting))
qed

text \<open>
  Due dates 2024-03-20, 2024-03-02 and 2025-01-01 in March 2024: events on 2024-03-02 and
  2024-03-20, the same with a weekly repeat and a repeat count of 3.
\<close>

theorem variable_dates_only_witness:
  "variableMode variableGym
   \<and> collation (localeCompare host)
   \<and> map_sum id (map date) (generateExpenseEvents host [variableGym] marchStart marchEnd)
       = Inr [''2024-03-02'', ''2024-03-20'']
   \<and> generateExpenseEvents host [variableGym \<lparr> repeat := RepeatWeekly, repeatCount := Some (Fin 3) \<rparr>]
         marchStart marchEnd
       = generateExpenseEvents host [variableGym] marchStart marchEnd"
proof -
  have v: "variableMode variableGym" by (simp add: variableGym_def variableMode_def)
  have c: "collation (localeCompare host)" by (simp add: host_def collation_codeUnitCompare)
  have e: "map_sum id (map date) (generateExpenseEvents host [variableGym] marchStart marchEnd)
       = Inr [''2024-03-02'', ''2024-03-20'']"
    by (simp add: variableGym_def expense_eval date_eval codeUnitCompare_def)
  from variable_dates_only [where x = variableGym and P = host and hs = marchStart and he = marchEnd
      and r = RepeatWeekly and rc = "Some (Fin 3)"] v
  have "generateExpenseEvents host [variableGym \<lparr> repeat := RepeatWeekly, repeatCount := Some (Fin 3) \<rparr>]
         marchStart marchEnd
       = generateExpenseEvents host [variableGym] marchStart marchEnd"
    by blast
  then show ?thesis using v c e by blast
qed

text \<open>
  C7 as stated fails when variable dates are switched on and no due date is listed: the
  fixed schedule applies. Two such expenses that differ only in their repeat field, first
  due on 2024-03-05, give one event and two events between 2024-03-01 and 2024-03-12.
\<close>

theorem variable_dates_only_counterexample:
  "variableDatesEnabled emptyVariable = Some True
   \<and> emptyVariableWeekly = emptyVariable \<lparr> repeat := RepeatWeekly \<rparr>
   \<and> map_sum id length (generateExpenseEvents host [emptyVariable] marchStart (Civil 2024 2 12)) = Inr 1
   \<and> map_sum id length (generateExpenseEvents host [emptyVariableWeekly] marchStart (Civil 2024 2 12)) = Inr 2"
  by (simp add: emptyVariable_def emptyVariableWeekly_def expense_eval date_eval)

lemma generateIncomeEvents_props:
  "\<exists>evs. generateIncomeEvents P config hs he = Inr evs \<and> length evs \<le> 5000"
proof -
  from incomeWalk_props[OF wf_parseISODate, of 0 "payFrequency config" "computeNetPay config" hs he
      P "nextPayDate config" "[]"]
  obtain n evs where "incomeWalk (payFrequency config) (computeNetPay config) hs he 0
      (parseISODate P (nextPayDate config)) [] = Inr (n, evs)" "n \<le> 5000" "length evs \<le> n"
    by auto
  then show ?thesis by (auto simp: generateIncomeEvents_def Let_def)
qed

lemma maxOccurrences_unbounded:
  "repeat x \<noteq> RepeatNone \<Longrightarrow> repeatCount x = None \<Longrightarrow> maxOccurrences x = PosInf"
  by (simp add: maxOccurrences_def isFiniteOpt_def)

text \<open>
  C3. The walk of an income stream and the walk of a fixed-schedule expense return on
  every input, after at most 5000 entries into the loop body and with at most one event
  per entry, so at most 5000 events each. When the first due date of a repeating expense
  without a repeat count is no date, the cursor never advances and the walk stops at the
  cap, after exactly 5000 entries and with no event. A weekly expense, whatever its repeat
  count, over a horizon whose end is at most 366 days after its start yields at most 53
  events.
\<close>

theorem recurrence_walks_bounded:
  "(\<exists>n evs. incomeWalk f net hs he 0 (parseISODate P d) [] = Inr (n, evs)
        \<and> n \<le> 5000 \<and> length evs \<le> n)
   \<and> (\<exists>evs. generateIncomeEvents P config hs he = Inr evs \<and> length evs \<le> 5000)
   \<and> (\<exists>n evs. fixedSchedule P x hs he [] = Inr (n, evs) \<and> n \<le> 5000 \<and> length evs \<le> n)
   \<and> (repeat x \<noteq> RepeatNone \<and> repeatCount x = None
        \<and> parseISODate P (firstDueDate x) = InvalidDate
        \<longrightarrow> fixedSchedule P x hs he [] = Inr (5000, []))
   \<and> (\<not> variableMode x \<and> repeat x = RepeatWeekly
        \<and> timeValue hs = Some s \<and> timeValue he = Some e \<and> e \<le> s + 366
        \<longrightarrow> (\<exists>evs. generateExpenseEvents P [x] hs he = Inr evs \<and> length evs \<le> 53))"
proof -
  have a: "\<exists>n evs. incomeWalk f net hs he 0 (parseISODate P d) [] = Inr (n, evs)
        \<and> n \<le> 5000 \<and> length evs \<le> n"
    using incomeWalk_props[OF wf_parseISODate, of 0 f net hs he P d "[]"] by auto
  have b: "\<exists>evs. generateIncomeEvents P config hs he = Inr evs \<and> length evs \<le> 5000"
    by (rule generateIncomeEvents_props)
  have c: "\<exists>n evs. fixedSchedule P x hs he [] = Inr (n, evs) \<and> n \<le> 5000 \<and> length evs \<le> n"
    using fixedSchedule_props[of P x hs he "[]"] by auto
  have d: "repeat x \<noteq> RepeatNone \<and> repeatCount x = None
        \<and> parseISODate P (firstDueDate x) = InvalidDate
        \<longrightarrow> fixedSchedule P x hs he [] = Inr (5000, [])"
  proof (intro impI, elim conjE)
    assume r: "repeat x \<noteq> RepeatNone" and rc: "repeatCount x = None"
      and p: "parseISODate P (firstDueDate x) = InvalidDate"
    show "fixedSchedule P x hs he [] = Inr (5000, [])"
      unfolding fixedSchedule_def Let_def p maxOccurrences_unbounded[OF r rc]
      by (rule expenseWalk_stuck[OF r]) simp
  qed
  have e: "\<not> variableMode x \<and> repeat x = RepeatWeekly
        \<and> timeValue hs = Some s \<and> timeValue he = Some e \<and> e \<le> s + 366
        \<longrightarrow> (\<exists>evs. generateExpenseEvents P [x] hs he = Inr evs \<and> length evs \<le> 53)"
  proof (intro impI, elim conjE)
    assume fixed: "\<not> variableMode x" and r: "repeat x = RepeatWeekly"
      and s: "timeValue hs = Some s" and e: "timeValue he = Some e" and y: "e \<le> s + 366"
    let ?cursor = "parseISODate P (firstDueDate x)"
    have "\<exists>n evs'. expenseWalk x hs he (maxOccurrences x) 0 0 ?cursor [] = Inr (n, [] @ evs')
              \<and> int (length evs') \<le> weeklySlots s e ?cursor"
      by (rule expenseWalk_weekly[OF wf_parseISODate _ r s e]) simp
    then obtain n evs where w: "expenseWalk x hs he (maxOccurrences x) 0 0 ?cursor [] = Inr (n, evs)"
      and l: "int (length evs) \<le> weeklySlots s e ?cursor" by auto
    have "int (length evs) \<le> 53" using l weeklySlots_year[OF y, of ?cursor] by simp
    then have "length evs \<le> 53" by simp
    moreover have "generateExpenseEvents P [x] hs he = Inr evs"
      by (simp add: single_fixed[OF fixed] fixedSchedule_def Let_def w)
    ultimately show "\<exists>evs. generateExpenseEvents P [x] hs he = Inr evs \<and> length evs \<le> 53"
      by blast
  qed
  show ?thesis using a b c d e by blast
qed

text \<open>
  The weekly gym fee from 2024-01-01 to 2025-01-01 (366 days), and the one whose first due
  date is the string "soon".
\<close>

lemma parse_broken: "parseISODate host (firstDueDate brokenGym) = InvalidDate"
  by (simp add: brokenGym_def weeklyGym_def gymExpense_def date_eval)

theorem recurrence_walks_bounded_witness:
  "repeat brokenGym \<noteq> RepeatNone \<and> repeatCount brokenGym = None
   \<and> parseISODate host (firstDueDate brokenGym) = InvalidDate
   \<and> fixedSchedule host brokenGym yearStart yearEnd [] = Inr (5000, [])
   \<and> \<not> variableMode weeklyGym \<and> repeat weeklyGym = RepeatWeekly
   \<and> timeValue yearStart = Some 19723 \<and> timeValue yearEnd = Some 20089 \<and> (20089::int) \<le> 19723 + 366
   \<and> (\<exists>evs. generateExpenseEvents host [weeklyGym] yearStart yearEnd = Inr evs \<and> length evs \<le> 53)"
proof -
  have b: "repeat brokenGym \<noteq> RepeatNone" "repeatCount brokenGym = None"
    by (simp_all add: brokenGym_def weeklyGym_def gymExpense_def)
  have w: "\<not> variableMode weeklyGym" "repeat weeklyGym = RepeatWeekly"
    by (simp_all add: weeklyGym_def gymExpense_def variableMode_def)
  have t: "timeValue yearStart = Some 19723" "timeValue yearEnd = Some 20089"
    by (simp_all add: yearStart_def yearEnd_def dayFromYear_def daysBeforeMonth_def isLeapYear_def)
  have y: "(20089::int) \<le> 19723 + 366" by simp
  from recurrence_walks_bounded [where x = brokenGym and P = host and hs = yearStart and he = yearEnd]
    b parse_broken
  have r1: "fixedSchedule host brokenGym yearStart yearEnd [] = Inr (5000, [])" by blast
  from recurrence_walks_bounded [where x = weeklyGym and P = host and hs = yearStart and he = yearEnd
      and s = 19723 and e = 20089] w t y
  have r2: "\<exists>evs. generateExpenseEvents host [weeklyGym] yearStart yearEnd = Inr evs \<and> length evs \<le> 53"
    by blast
  show ?thesis using b parse_broken r1 w t y r2 by blast
qed

lemma newDate_in_month:
  assumes y: "- 271000 \<le> y" "y \<le> 275500" "\<not> (0 \<le> y \<and> y \<le> 99)"
    and m: "0 \<le> m" "m < 12" and d: "1 \<le> d" "d \<le> daysInMonth y m"
  shows "newDate (Some y) (Some m) (Some d) = Civil y m d"
proof -
  have "d \<le> 62" using d(2) daysInMonth_bounds[of y m] by simp
  then have "wf_date (Civil y m d)"
    using year_range_valid[OF y(1,2) m d(1)] m d by simp
  then have "makeDate y m d = Civil y m d" by (rule makeDate_wf_id)
  then show ?thesis using y(3) by auto
qed

lemma newDate_next_month:
  assumes y: "- 271000 \<le> y" "y \<le> 275000" "\<not> (0 \<le> y \<and> y \<le> 99)"
    and m: "0 \<le> m" "m < 12" and d: "1 \<le> d" "d \<le> 28"
  shows "newDate (Some y) (Some (m + 1)) (Some d)
           = (if m = 11 then Civil (y + 1) 0 d else Civil y (m + 1) d)"
proof (cases "m = 11")
  case False
  have "d \<le> daysInMonth y (m + 1)" using d(2) daysInMonth_bounds[of y "m + 1"] by simp
  moreover have "newDate (Some y) (Some (m + 1)) (Some d) = Civil y (m + 1) d"
    if "d \<le> daysInMonth y (m + 1)"
    by (rule newDate_in_month) (use y m d False that in simp_all)
  ultimately show ?thesis using False by simp
next
  case True
  have dm: "d \<le> daysInMonth (y + 1) 0" using d(2) by (simp add: daysInMonth_def)
  have "wf_date (Civil (y + 1) 0 d)"
  proof -
    have "\<bar>dayFromYear (y + 1) + daysBeforeMonth (y + 1) 0 + d - 1\<bar> \<le> 100000000"
      by (rule year_range_valid) (use y d in simp_all)
    then show ?thesis using d dm by simp
  qed
  then have "makeDate (y + 1) 0 d = Civil (y + 1) 0 d" by (rule makeDate_wf_id)
  moreover have "makeDate y 12 d = makeDate (y + 1) 0 d" by (simp add: makeDate_def)
  ultimately show ?thesis using True y(3) by auto
qed

text \<open>
  C5, as amended. For every valid cursor date whose year is outside 0..99 and between
  -271000 and 275000, the semimonthly advance is: from day 1, the 15th of the same month;
  from day 2 to day 15, the 1st of the following month; from day 16 on, the 15th of the
  following month (the following month of December being January of the next year).
\<close>

theorem semimonthly_split_rule:
  "0 \<le> m \<and> m < 12 \<and> 1 \<le> d \<and> d \<le> daysInMonth y m
   \<and> - 271000 \<le> y \<and> y \<le> 275000 \<and> \<not> (0 \<le> y \<and> y \<le> 99)
   \<longrightarrow> advanceIncomeDate (Civil y m d) PaySemimonthly
         = (if d = 1 then Civil y m 15
            else if d \<le> 15 then (if m = 11 then Civil (y + 1) 0 1 else Civil y (m + 1) 1)
            else (if m = 11 then Civil (y + 1) 0 15 else Civil y (m + 1) 15))"
proof (intro impI, elim conjE)
  assume m: "0 \<le> m" "m < 12" and d: "1 \<le> d" "d \<le> daysInMonth y m"
    and y: "- 271000 \<le> y" "y \<le> 275000" "\<not> (0 \<le> y \<and> y \<le> 99)"
  have d15: "15 \<le> daysInMonth y m" using daysInMonth_bounds[of y m] by simp
  have a: "newDate (Some y) (Some m) (Some 15) = Civil y m 15"
    by (rule newDate_in_month) (use y m d15 in simp_all)
  have b: "newDate (Some y) (Some (m + 1)) (Some 1)
             = (if m = 11 then Civil (y + 1) 0 1 else Civil y (m + 1) 1)"
    by (rule newDate_next_month) (use y m in simp_all)
  have c: "newDate (Some y) (Some (m + 1)) (Some 15)
             = (if m = 11 then Civil (y + 1) 0 15 else Civil y (m + 1) 15)"
    by (rule newDate_next_month) (use y m in simp_all)
  have "addSemimonthly (Civil y m d)
         = (if d \<le> 1 then Civil y m 15
            else if d \<le> 15 then (if m = 11 then Civil (y + 1) 0 1 else Civil y (m + 1) 1)
            else (if m = 11 then Civil (y + 1) 0 15 else Civil y (m + 1) 15))"
    unfolding addSemimonthly_def Let_def by (simp only: getDate.simps getMonth.simps getFullYear.simps
        leOpt_def option.case plusOpt_def option.map a b c)
  moreover have "d \<le> 1 \<longleftrightarrow> d = 1" using d(1) by auto
  ultimately show "advanceIncomeDate (Civil y m d) PaySemimonthly
         = (if d = 1 then Civil y m 15
            else if d \<le> 15 then (if m = 11 then Civil (y + 1) 0 1 else Civil y (m + 1) 1)
            else (if m = 11 then Civil (y + 1) 0 15 else Civil y (m + 1) 15))"
    by (simp add: advanceIncomeDate_def)
qed

text \<open>
  From 2024-01-01 to 2024-01-15, from 2024-12-10 to 2025-01-01, from 2024-01-31 to
  2024-02-15.
\<close>

theorem semimonthly_split_rule_witness:
  "advanceIncomeDate (Civil 2024 0 1) PaySemimonthly = Civil 2024 0 15
   \<and> advanceIncomeDate (Civil 2024 11 10) PaySemimonthly = Civil 2025 0 1
   \<and> advanceIncomeDate (Civil 2024 0 31) PaySemimonthly = Civil 2024 1 15"
  using semimonthly_split_rule [of 0 1 2024] semimonthly_split_rule [of 11 10 2024]
    semimonthly_split_rule [of 0 31 2024]
  by (simp add: daysInMonth_def)


text \<open>
  C5 as stated fails at two ends. The pay date 275760-09-02 is a date of the host, but
  the 1st of the following month lies beyond the last date the host has, and the advance
  is the invalid date. The pay date string 0100-00-01 parses to 1 December of the year 99
  (month 00 is the month before January), and the advance from this day 1 is 15 December
  1999, not the 15th of the same month: the constructor reads the year 99 as 1999.
\<close>

theorem semimonthly_split_rule_counterexample:
  "parseISODate host ''275760-09-02'' = Civil 275760 8 2
   \<and> advanceIncomeDate (Civil 275760 8 2) PaySemimonthly = InvalidDate
   \<and> parseISODate host ''0100-00-01'' = Civil 99 11 1
   \<and> advanceIncomeDate (Civil 99 11 1) PaySemimonthly = Civil 1999 11 15"
  by (simp add: advanceIncomeDate_def addSemimonthly_def leOpt_def date_eval)

section \<open>Properties of the pay computation\<close>

text \<open>
  C4. For every configuration in calculate mode whose gross pay (the hourly-derived value
  or the direct literal, as the gross input mode says) is not finite or is at most zero,
  the breakdown carries that gross pay and NaN in every other field; the deduction lines,
  the tax lines and the loan repayment have no influence on it.
\<close>

theorem computeNetPayBreakdown_invalid_gross:
  "paycheckInputMode config = CalculateMode
   \<and> (\<not> isFinite (configuredGross config) \<or> n_le (configuredGross config) (Fin 0))
   \<longrightarrow> computeNetPayBreakdown config
         = \<lparr> grossPay = configuredGross config, pretaxTotal = NaN, taxesTotal = NaN,
             posttaxTotal = NaN, loanRepaymentAmount = NaN, totalWithheldDeducted = NaN,
             netPay = NaN \<rparr>
       \<and> computeNetPayBreakdown
           (config \<lparr> pretaxDeductions := pre, taxesWithheld := tax, posttaxDeductions := post',
                     configLoanRepaymentAmount := loan \<rparr>)
         = computeNetPayBreakdown config"
proof (intro impI, elim conjE)
  assume mode: "paycheckInputMode config = CalculateMode"
    and bad: "\<not> isFinite (configuredGross config) \<or> n_le (configuredGross config) (Fin 0)"
  let ?config' = "config \<lparr> pretaxDeductions := pre, taxesWithheld := tax,
                           posttaxDeductions := post', configLoanRepaymentAmount := loan \<rparr>"
  have g: "configuredGross ?config' = configuredGross config"
    by (simp add: configuredGross_def)
  have r: "computeNetPayBreakdown config
         = \<lparr> grossPay = configuredGross config, pretaxTotal = NaN, taxesTotal = NaN,
             posttaxTotal = NaN, loanRepaymentAmount = NaN, totalWithheldDeducted = NaN,
             netPay = NaN \<rparr>"
    using mode bad by (auto simp: computeNetPayBreakdown_def Let_def)
  have "computeNetPayBreakdown ?config'
         = \<lparr> grossPay = configuredGross ?config', pretaxTotal = NaN, taxesTotal = NaN,
             posttaxTotal = NaN, loanRepaymentAmount = NaN, totalWithheldDeducted = NaN,
             netPay = NaN \<rparr>"
    using mode bad unfolding computeNetPayBreakdown_def Let_def g by auto
  then show "computeNetPayBreakdown config
         = \<lparr> grossPay = configuredGross config, pretaxTotal = NaN, taxesTotal = NaN,
             posttaxTotal = NaN, loanRepaymentAmount = NaN, totalWithheldDeducted = NaN,
             netPay = NaN \<rparr>
       \<and> computeNetPayBreakdown ?config' = computeNetPayBreakdown config"
    using r g by simp
qed

text \<open>
  Four configurations with deduction, tax and loan inputs set: a direct gross amount of
  zero; an hourly rate of zero, where the gross pay is NaN; a rate and hours whose product
  overflows, where the gross pay is infinite; in each the other six fields are NaN. And
  the hourly configuration whose gross rounds up to one cent: its gross pay is positive,
  so it is outside the case, and its breakdown is computed from the lines.
\<close>

theorem computeNetPayBreakdown_invalid_gross_witness:
  "paycheckInputMode zeroGrossConfig = CalculateMode
   \<and> n_le (configuredGross zeroGrossConfig) (Fin 0)
   \<and> computeNetPayBreakdown zeroGrossConfig
       = \<lparr> grossPay = Fin 0, pretaxTotal = NaN, taxesTotal = NaN, posttaxTotal = NaN,
           loanRepaymentAmount = NaN, totalWithheldDeducted = NaN, netPay = NaN \<rparr>
   \<and> paycheckInputMode zeroRateConfig = CalculateMode
   \<and> \<not> isFinite (configuredGross zeroRateConfig)
   \<and> computeNetPayBreakdown zeroRateConfig
       = \<lparr> grossPay = NaN, pretaxTotal = NaN, taxesTotal = NaN, posttaxTotal = NaN,
           loanRepaymentAmount = NaN, totalWithheldDeducted = NaN, netPay = NaN \<rparr>
   \<and> paycheckInputMode overflowConfig = CalculateMode
   \<and> \<not> isFinite (configuredGross overflowConfig)
   \<and> computeNetPayBreakdown overflowConfig
       = \<lparr> grossPay = PosInf, pretaxTotal = NaN, taxesTotal = NaN, posttaxTotal = NaN,
           loanRepaymentAmount = NaN, totalWithheldDeducted = NaN, netPay = NaN \<rparr>
   \<and> configuredGross halfCentConfig = Fin (5764607523034235 / 2 ^ 59)
   \<and> isFinite (pretaxTotal (computeNetPayBreakdown halfCentConfig))"
proof -
  have m: "paycheckInputMode zeroGrossConfig = CalculateMode"
    "paycheckInputMode zeroRateConfig = CalculateMode"
    "paycheckInputMode overflowConfig = CalculateMode"
    by (simp_all add: zeroGrossConfig_def zeroRateConfig_def overflowConfig_def)
  have g1: "configuredGross zeroGrossConfig = Fin 0"
    by (simp add: zeroGrossConfig_def configuredGross_def nullish_def)
  have g2: "configuredGross zeroRateConfig = NaN"
    by (simp add: zeroRateConfig_def zeroGrossConfig_def configuredGross_def nullish_def
        computeGrossPayFromHourly_def isFiniteOpt_def)
  have g3: "configuredGross overflowConfig = PosInf"
    by (simp add: overflowConfig_def zeroGrossConfig_def configuredGross_def nullish_def
        computeGrossPayFromHourly_def isFiniteOpt_def roundToCents_def EPSILON_def double_eval)
  have g4: "configuredGross halfCentConfig = Fin (5764607523034235 / 2 ^ 59)"
    by (simp add: halfCentConfig_def zeroGrossConfig_def configuredGross_def nullish_def
        computeGrossPayFromHourly_def isFiniteOpt_def roundToCents_def EPSILON_def double_eval)
  have p4: "isFinite (pretaxTotal (computeNetPayBreakdown halfCentConfig))"
    unfolding computeNetPayBreakdown_def Let_def g4
    by (simp add: halfCentConfig_def zeroGrossConfig_def sumDeductionLines_def
        roundToCents_def EPSILON_def double_eval)
  have b1: "n_le (configuredGross zeroGrossConfig) (Fin 0)" by (simp add: g1)
  have b2: "\<not> isFinite (configuredGross zeroRateConfig)" by (simp add: g2)
  have b3: "\<not> isFinite (configuredGross overflowConfig)" by (simp add: g3)
  from computeNetPayBreakdown_invalid_gross [of zeroGrossConfig] m(1) b1
  have r1: "computeNetPayBreakdown zeroGrossConfig
         = \<lparr> grossPay = configuredGross zeroGrossConfig, pretaxTotal = NaN, taxesTotal = NaN,
             posttaxTotal = NaN, loanRepaymentAmount = NaN, totalWithheldDeducted = NaN,
             netPay = NaN \<rparr>"
    by blast
  from computeNetPayBreakdown_invalid_gross [of zeroRateConfig] m(2) b2
  have r2: "computeNetPayBreakdown zeroRateConfig
         = \<lparr> grossPay = configuredGross zeroRateConfig, pretaxTotal = NaN, taxesTotal = NaN,
             posttaxTotal = NaN, loanRepaymentAmount = NaN, totalWithheldDeducted = NaN,
             netPay = NaN \<rparr>"
    by blast
  from computeNetPayBreakdown_invalid_gross [of overflowConfig] m(3) b3
  have r3: "computeNetPayBreakdown overflowConfig
         = \<lparr> grossPay = configuredGross overflowConfig, pretaxTotal = NaN, taxesTotal = NaN,
             posttaxTotal = NaN, loanRepaymentAmount = NaN, totalWithheldDeducted = NaN,
             netPay = NaN \<rparr>"
    by blast
  show ?thesis
    using m b1 b2 b3 g4 p4 r1 r2 r3 by (simp add: g1 g2 g3)
qed

section \<open>Properties of the bonus events\<close>













section \<open>Properties of the view layer\<close>

lemma distinct_countStep: "distinct (map fst m) \<Longrightarrow> distinct (map fst (countStep m row))"
  by (auto simp: countStep_def distinct_map_set split: option.splits)

lemma distinct_foldl_countStep:
  "distinct (map fst m) \<Longrightarrow> distinct (map fst (foldl countStep m rows))"
  by (induction rows arbitrary: m) (simp_all add: distinct_countStep)

lemma countStep_lookup:
  "map_of (countStep m row) sid =
     (if sid \<noteq> [] \<and> event_type row = Expense \<and> sourceId row = Some sid
      then Some (countOf m sid + 1) else map_of m sid)"
  by (auto simp: countStep_def map_of_map_set map_get_def countOf_def split: option.splits)

lemma foldl_countStep_lookup:
  "map_of (foldl countStep m rows) sid =
     (if sid \<noteq> [] \<and> 0 < spec_occurrences rows sid
      then Some (countOf m sid + spec_occurrences rows sid) else map_of m sid)"
proof (induction rows arbitrary: m)
  case Nil
  then show ?case by (simp add: spec_occurrences_def)
next
  case (Cons row rows)
  show ?case
    by (simp add: Cons.IH countStep_lookup spec_occurrences_def countOf_def)
qed

lemma countOccurrences_lookup:
  "map_of (countOccurrences rows) sid =
     (if sid \<noteq> [] \<and> 0 < spec_occurrences rows sid then Some (spec_occurrences rows sid) else None)"
  by (simp add: countOccurrences_def foldl_countStep_lookup countOf_def)

lemma countOccurrences_member:
  "(sid, c) \<in> set (countOccurrences rows) \<longleftrightarrow> sid \<noteq> [] \<and> 0 < c \<and> c = spec_occurrences rows sid"
proof -
  have d: "distinct (map fst (countOccurrences rows))"
    by (simp add: countOccurrences_def distinct_foldl_countStep)
  have "(sid, c) \<in> set (countOccurrences rows) \<longleftrightarrow> map_of (countOccurrences rows) sid = Some c"
    using d by simp
  then show ?thesis by (auto simp: countOccurrences_lookup)
qed

text \<open>
  C9, as amended. For every expense list and row list, the result is exactly the set of
  non-empty source ids that belong to a highlight-eligible expense and occur as the source
  id of more than one expense-typed row. (The empty string is never in the result: a row
  whose source id is empty is skipped like a row without one.)
\<close>

theorem createFiniteExpenseIdSet_spec:
  "createFiniteExpenseIdSet expenses rows =
     {sid. sid \<noteq> [] \<and> (\<exists>e \<in> set expenses. expense_id e = sid \<and> spec_eligible expenses e)
           \<and> 1 < spec_occurrences rows sid}"
proof -
  have en: "\<And>sid. sid \<in> set (map expense_id
                  (filter (\<lambda>expense. if list_ex (\<lambda>expense. highlightLastEvent expense = Some True) expenses
                                       then highlightLastEvent expense = Some True else True)
                     expenses))
        \<longleftrightarrow> (\<exists>e \<in> set expenses. expense_id e = sid \<and> spec_eligible expenses e)"
    by (auto simp: spec_eligible_def list_ex_iff)
  show ?thesis
    unfolding createFiniteExpenseIdSet_def Let_def
    apply (simp only: en)
    apply (auto simp: countOccurrences_member image_iff)
    done
qed


text \<open>
  The gym expense never opted in and no expense did, so it is eligible; it has two rows.
\<close>

theorem createFiniteExpenseIdSet_spec_witness:
  "createFiniteExpenseIdSet [gymExpense] gymRows = {''g1''}"
proof -
  have e: "\<And>sid. (\<exists>e \<in> set [gymExpense]. expense_id e = sid \<and> spec_eligible [gymExpense] e)
                  \<longleftrightarrow> sid = ''g1''"
    by (auto simp: gymExpense_def spec_eligible_def)
  have o: "\<And>sid. 1 < spec_occurrences gymRows sid \<longleftrightarrow> sid = ''g1''"
    by (auto simp: gymRows_def spec_occurrences_def)
  show ?thesis
    unfolding createFiniteExpenseIdSet_spec [of "[gymExpense]" gymRows] e o by auto
qed

text \<open>
  C9 as stated fails for the empty id: an expense whose id is the empty string, opted in,
  with two expense rows carrying that id, is eligible and occurs twice, yet its id is not
  in the result.
\<close>

theorem createFiniteExpenseIdSet_counterexample:
  "expense_id blankIdExpense = []
   \<and> spec_eligible [blankIdExpense] blankIdExpense
   \<and> spec_occurrences blankIdRows [] = 2
   \<and> [] \<notin> createFiniteExpenseIdSet [blankIdExpense] blankIdRows"
  by (simp add: blankIdExpense_def blankIdRows_def gymExpense_def gymRows_def
      spec_eligible_def spec_occurrences_def createFiniteExpenseIdSet_def
      countOccurrences_def countStep_def)

section \<open>Properties of the payday metrics\<close>

lemma n_le_refl: "a \<noteq> NaN \<Longrightarrow> n_le a a"
  by (cases a) simp_all

lemma n_le_trans: "n_le a b \<Longrightarrow> n_le b c \<Longrightarrow> n_le a c"
  by (cases a; cases b; cases c) simp_all

lemma n_le_total: "a \<noteq> NaN \<Longrightarrow> b \<noteq> NaN \<Longrightarrow> n_le a b \<or> n_le b a"
  by (cases a; cases b) auto

lemma foldl_math_min_NaN:
  "NaN \<in> set (s # xs) \<Longrightarrow> foldl math_min s xs = NaN"
proof (induction xs arbitrary: s)
  case Nil
  then show ?case by simp
next
  case (Cons x xs)
  have "math_min s x = NaN \<or> NaN \<in> set xs"
    using Cons.prems by (auto simp: math_min_def)
  then have "NaN \<in> set (math_min s x # xs)" by auto
  then show ?case using Cons.IH by simp
qed

lemma foldl_math_min_least:
  "NaN \<notin> set (s # xs) \<Longrightarrow>
     foldl math_min s xs \<in> set (s # xs) \<and> (\<forall>x \<in> set (s # xs). n_le (foldl math_min s xs) x)"
proof (induction xs arbitrary: s)
  case Nil
  then show ?case by (simp add: n_le_refl)
next
  case (Cons x xs)
  let ?m = "math_min s x"
  have sx: "s \<noteq> NaN" "x \<noteq> NaN" "NaN \<notin> set xs" using Cons.prems by auto
  have m: "?m \<noteq> NaN" "?m = s \<or> ?m = x" "n_le ?m s" "n_le ?m x"
    using sx n_le_total[of s x] n_le_refl[of s] n_le_refl[of x]
    by (auto simp: math_min_def)
  have "NaN \<notin> set (?m # xs)" using m(1) sx(3) by auto
  from Cons.IH[OF this]
  have ih: "foldl math_min ?m xs \<in> set (?m # xs)"
    "\<forall>y \<in> set (?m # xs). n_le (foldl math_min ?m xs) y" by auto
  have "n_le (foldl math_min ?m xs) ?m" using ih(2) by simp
  then have "n_le (foldl math_min ?m xs) s" "n_le (foldl math_min ?m xs) x"
    using m(3,4) n_le_trans by blast+
  then show ?case using ih m(2) by auto
qed

lemma foldl_runningBalance:
  "foldl (\<lambda>m row. math_min m (runningBalance row)) s rs = foldl math_min s (map runningBalance rs)"
  by (induction rs arbitrary: s) simp_all

lemma last_filter_index:
  assumes "i < length rows" "P (rows ! i)"
    and "\<forall>j. i < j \<and> j < length rows \<longrightarrow> \<not> P (rows ! j)"
  shows "filter P rows \<noteq> [] \<and> last (filter P rows) = rows ! i"
proof -
  have split: "rows = take i rows @ (rows ! i) # drop (Suc i) rows"
    using assms(1) by (simp add: id_take_nth_drop)
  have "\<forall>x \<in> set (drop (Suc i) rows). \<not> P x"
  proof
    fix x assume "x \<in> set (drop (Suc i) rows)"
    then obtain k where k: "k < length (drop (Suc i) rows)" "x = drop (Suc i) rows ! k"
      by (auto simp: in_set_conv_nth)
    then have "x = rows ! (Suc i + k)" "Suc i + k < length rows" by auto
    then show "\<not> P x" using assms(3) by auto
  qed
  then have "filter P (drop (Suc i) rows) = []" by (simp add: filter_empty_conv)
  then have "filter P rows = filter P (take i rows) @ [rows ! i]"
    using assms(2) by (subst split) simp
  then show ?thesis by simp
qed

text \<open>
  C2. For every row list, payday date, buffer and starting balance:
  the balance on the next payday is the running balance of the last row dated on or
  before the payday, and the starting balance when no row is; the lowest balance before
  the payday is the minimum (in the sense of \<^verbatim>\<open>Math.min\<close>: NaN as soon as one value is
  NaN, otherwise the least value) of the starting balance and the running balances of the
  rows dated strictly before the payday; safe-to-spend is that lowest balance minus the
  buffer, with no clamping.
\<close>

theorem computeNextPaydayMetrics_spec:
  "let m = computeNextPaydayMetrics rows npd buf sb;
       before = sb # map runningBalance (filter (\<lambda>r. date r < npd) rows)
   in nextPaydayDate m = npd
    \<and> ((\<forall>r \<in> set rows. \<not> date r \<le> npd) \<longrightarrow> balanceOnNextPayday m = sb)
    \<and> (\<forall>i < length rows.
          date (rows ! i) \<le> npd \<and> (\<forall>j. i < j \<and> j < length rows \<longrightarrow> \<not> date (rows ! j) \<le> npd)
          \<longrightarrow> balanceOnNextPayday m = runningBalance (rows ! i))
    \<and> (NaN \<in> set before \<longrightarrow> lowestBalanceBeforeNextPayday m = NaN)
    \<and> (NaN \<notin> set before \<longrightarrow>
          lowestBalanceBeforeNextPayday m \<in> set before
          \<and> (\<forall>x \<in> set before. n_le (lowestBalanceBeforeNextPayday m) x))
    \<and> safeToSpendUntilNextPayday m = n_sub (lowestBalanceBeforeNextPayday m) buf"
proof -
  let ?m = "computeNextPaydayMetrics rows npd buf sb"
  let ?until = "filter (\<lambda>r. date r \<le> npd) rows"
  let ?before = "sb # map runningBalance (filter (\<lambda>r. date r < npd) rows)"
  have bal: "balanceOnNextPayday ?m = (if ?until \<noteq> [] then runningBalance (last ?until) else sb)"
    by (simp add: computeNextPaydayMetrics_def Let_def last_conv_nth)
  have low: "lowestBalanceBeforeNextPayday ?m
               = foldl math_min sb (map runningBalance (filter (\<lambda>r. date r < npd) rows))"
    by (simp add: computeNextPaydayMetrics_def Let_def foldl_runningBalance)
  have c1: "nextPaydayDate ?m = npd"
    by (simp add: computeNextPaydayMetrics_def Let_def)
  have c2: "(\<forall>r \<in> set rows. \<not> date r \<le> npd) \<longrightarrow> balanceOnNextPayday ?m = sb"
    by (simp add: bal filter_empty_conv)
  have c3: "\<forall>i < length rows.
          date (rows ! i) \<le> npd \<and> (\<forall>j. i < j \<and> j < length rows \<longrightarrow> \<not> date (rows ! j) \<le> npd)
          \<longrightarrow> balanceOnNextPayday ?m = runningBalance (rows ! i)"
  proof (intro allI impI)
    fix i assume i: "i < length rows"
      and h: "date (rows ! i) \<le> npd \<and> (\<forall>j. i < j \<and> j < length rows \<longrightarrow> \<not> date (rows ! j) \<le> npd)"
    from last_filter_index[of i rows "\<lambda>r. date r \<le> npd"] i h
    have "?until \<noteq> [] \<and> last ?until = rows ! i" by blast
    then show "balanceOnNextPayday ?m = runningBalance (rows ! i)" by (simp add: bal)
  qed
  have c4: "NaN \<in> set ?before \<longrightarrow> lowestBalanceBeforeNextPayday ?m = NaN"
    using foldl_math_min_NaN[of sb "map runningBalance (filter (\<lambda>r. date r < npd) rows)"]
    by (simp only: low) blast
  have c5: "NaN \<notin> set ?before \<longrightarrow>
          lowestBalanceBeforeNextPayday ?m \<in> set ?before
          \<and> (\<forall>x \<in> set ?before. n_le (lowestBalanceBeforeNextPayday ?m) x)"
    using foldl_math_min_least[of sb "map runningBalance (filter (\<lambda>r. date r < npd) rows)"]
    by (simp only: low) blast
  have c6: "safeToSpendUntilNextPayday ?m = n_sub (lowestBalanceBeforeNextPayday ?m) buf"
    by (simp add: computeNextPaydayMetrics_def Let_def)
  show ?thesis
    unfolding Let_def using c1 c2 c3 c4 c5 c6 by blast
qed

text \<open>
  The example of the specification: rows dated 2024-01-05 (balance 100) and 2024-01-10
  (balance 80), payday 2024-01-10, starting balance 50, buffer 20 give 80, 50 and 30.
  The second row is the last one dated on or before the payday; only the first row is
  dated strictly before it.
\<close>

theorem computeNextPaydayMetrics_spec_witness:
  "(1::nat) < length exampleRows
   \<and> date (exampleRows ! 1) \<le> ''2024-01-10''
   \<and> NaN \<notin> set (Fin 50 # map runningBalance (filter (\<lambda>r. date r < ''2024-01-10'') exampleRows))
   \<and> balanceOnNextPayday (computeNextPaydayMetrics exampleRows ''2024-01-10'' (Fin 20) (Fin 50)) = Fin 80
   \<and> lowestBalanceBeforeNextPayday (computeNextPaydayMetrics exampleRows ''2024-01-10'' (Fin 20) (Fin 50)) = Fin 50
   \<and> safeToSpendUntilNextPayday (computeNextPaydayMetrics exampleRows ''2024-01-10'' (Fin 20) (Fin 50)) = Fin 30"
  using computeNextPaydayMetrics_spec [of exampleRows "''2024-01-10''" "Fin 20" "Fin 50"]
  by (simp add: Let_def exampleRows_def computeNextPaydayMetrics_def math_min_def n_sub_def)

end
